theory Spec2Isabelle
  imports Main "HOL-Library.Sublist"
begin

section \<open>Strings of the Go runtime\<close>

text \<open>
  A Go string is a sequence of bytes and \<open>len\<close> counts bytes; \<^typ>\<open>string\<close> is a list of
  8-bit characters, so \<^const>\<open>length\<close> is \<open>len\<close>.
\<close>

text \<open>\<open>%d\<close> of \<open>fmt.Sprintf\<close> on a non-negative integer: its decimal digits.\<close>

definition digit :: "nat \<Rightarrow> char" where
  "digit d = char_of (48 + d)"

fun fmtD :: "nat \<Rightarrow> string" where
  "fmtD n = (if n < 10 then [digit n] else fmtD (n div 10) @ [digit (n mod 10)])"

declare fmtD.simps [simp del]

text \<open>
  The UTF-8 encodings of the code points for which \<open>unicode.IsSpace\<close> holds: the six ASCII
  ones of the \<open>asciiSpace\<close> table, U+0085, U+00A0, U+1680, U+2000 to U+200A, U+2028, U+2029,
  U+202F, U+205F and U+3000.
\<close>

definition spaceRunes :: "string list" where
  "spaceRunes =
     [[CHR 0x09], [CHR 0x0A], [CHR 0x0B], [CHR 0x0C], [CHR 0x0D], [CHR 0x20],
      [CHR 0xC2, CHR 0x85], [CHR 0xC2, CHR 0xA0],
      [CHR 0xE1, CHR 0x9A, CHR 0x80],
      [CHR 0xE2, CHR 0x80, CHR 0x80], [CHR 0xE2, CHR 0x80, CHR 0x81],
      [CHR 0xE2, CHR 0x80, CHR 0x82], [CHR 0xE2, CHR 0x80, CHR 0x83],
      [CHR 0xE2, CHR 0x80, CHR 0x84], [CHR 0xE2, CHR 0x80, CHR 0x85],
      [CHR 0xE2, CHR 0x80, CHR 0x86], [CHR 0xE2, CHR 0x80, CHR 0x87],
      [CHR 0xE2, CHR 0x80, CHR 0x88], [CHR 0xE2, CHR 0x80, CHR 0x89],
      [CHR 0xE2, CHR 0x80, CHR 0x8A],
      [CHR 0xE2, CHR 0x80, CHR 0xA8], [CHR 0xE2, CHR 0x80, CHR 0xA9],
      [CHR 0xE2, CHR 0x80, CHR 0xAF],
      [CHR 0xE2, CHR 0x81, CHR 0x9F],
      [CHR 0xE3, CHR 0x80, CHR 0x80]]"

text \<open>
  \<open>dropRunes ps s\<close> removes from the front of \<open>s\<close> every leading occurrence of one of the
  byte sequences \<open>ps\<close>, as \<open>strings.TrimLeftFunc\<close> removes the leading runes its predicate
  accepts. A byte that starts no such sequence (an invalid byte decodes to U+FFFD, which is
  no space) ends the scan.
\<close>

function dropRunes :: "string list \<Rightarrow> string \<Rightarrow> string" where
  "dropRunes ps s =
     (case find (\<lambda>p. p \<noteq> [] \<and> take (length p) s = p) ps of
        None \<Rightarrow> s
      | Some p \<Rightarrow> dropRunes ps (drop (length p) s))"
  by pat_completeness auto
termination
proof (relation "measure (\<lambda>(ps, s). length s)")
  show "wf (measure (\<lambda>(ps, s). length s))" by simp
next
  fix ps :: "string list" and s p :: string
  assume "find (\<lambda>p. p \<noteq> [] \<and> take (length p) s = p) ps = Some p"
  then have "p \<noteq> []" and "take (length p) s = p"
    by (auto simp: find_Some_iff)
  then have "s \<noteq> []" and "0 < length p"
    by auto
  then show "((ps, drop (length p) s), (ps, s)) \<in> measure (\<lambda>(ps, s). length s)"
    by simp
qed

declare dropRunes.simps [simp del]

text \<open>
  \<open>strings.TrimSpace\<close>: the leading and the trailing white space runes are removed. The
  trailing scan reads the string backwards, so it is the leading scan of the reversed
  string against the reversed encodings.
\<close>

definition TrimSpace :: "string \<Rightarrow> string" where
  "TrimSpace s = rev (dropRunes (map rev spaceRunes) (rev (dropRunes spaceRunes s)))"

section \<open>The playlist message of ListPlaylist\<close>

text \<open>
  \<open>fmt.Sprintf("%d. %s\n", idx+1, song)\<close>. The type \<open>voice.Song\<close> and its \<open>String\<close> method
  are not among the sources, so the rendering of a song by \<open>%s\<close> is the parameter \<open>str\<close>.
\<close>

definition playlistLine :: "('song \<Rightarrow> string) \<Rightarrow> nat \<Rightarrow> 'song \<Rightarrow> string" where
  "playlistLine str idx song = fmtD (idx + 1) @ ''. '' @ str song @ [CHR 0x0A]"

text \<open>
  The loop of \<open>ListPlaylist\<close> over the playlist from index \<open>idx\<close> on, with the contents
  \<open>b\<close> of the \<open>strings.Builder\<close>: a line that would bring the builder over 4000 bytes
  is replaced by \<open>...\<close> and ends the loop.
\<close>

fun playlistLoop :: "('song \<Rightarrow> string) \<Rightarrow> nat \<Rightarrow> 'song list \<Rightarrow> string \<Rightarrow> string" where
  "playlistLoop str idx [] b = b"
| "playlistLoop str idx (song # rest) b =
     (let line = playlistLine str idx song in
      if length line + length b > 4000 then b @ ''...''
      else playlistLoop str (idx + 1) rest (b @ line))"

definition playlistMessage :: "('song \<Rightarrow> string) \<Rightarrow> 'song list \<Rightarrow> string" where
  "playlistMessage str playlist = TrimSpace (playlistLoop str 0 playlist [])"

text \<open>The lines of a whole playlist, numbered from \<open>idx + 1\<close>.\<close>

fun playlistLines :: "('song \<Rightarrow> string) \<Rightarrow> nat \<Rightarrow> 'song list \<Rightarrow> string list" where
  "playlistLines str idx [] = []"
| "playlistLines str idx (song # rest) = playlistLine str idx song # playlistLines str (idx + 1) rest"

section \<open>Songs and the tenant player\<close>

text \<open>
  Modelled from the spec: the type \<open>voice.Song\<close> is not among the sources. Section 3 of
  the spec gives it an identifier/URL, a title, a duration, an optional thumbnail reference
  and the requester's name; the handler reads and writes exactly these fields.
\<close>

record Song =
  URL :: string
  Title :: string
  Duration :: nat
  ThumbnailURL :: "string option"
  RequestedBy :: "string option"

datatype PlayerState = Idle | Loading | Playing | Closed

datatype PlayerError = ErrRemoveInvalidPosition | ErrPlayerClosed

text \<open>
  Modelled from the spec: \<open>bot.GuildPlayer\<close> is not among the sources. Sections 3 and 4.1
  of the spec describe it: a state, the queue of pending songs, the slot of the song that
  is streaming, and the voice session. \<open>sessionCloses\<close> counts the calls of the session's
  \<open>Close\<close> and \<open>cancelled\<close> the per-song cancellation tokens that were invalidated.
\<close>

record Player =
  state :: PlayerState
  queue :: "Song list"
  playing :: "Song option"
  textDest :: "string option"
  voiceDest :: "string option"
  sessionOpen :: bool
  sessionCloses :: nat
  cancelled :: nat

text \<open>Modelled from the spec: a new player is Idle, with an empty queue and no session.\<close>

definition NewGuildPlayer :: Player where
  "NewGuildPlayer =
     \<lparr>state = Idle, queue = [], playing = None, textDest = None, voiceDest = None,
      sessionOpen = False, sessionCloses = 0, cancelled = 0\<rparr>"

text \<open>
  Modelled from the spec: \<open>AddSong(textDest, voiceDest, song)\<close> appends to the queue and
  returns; a Closed player accepts no further commands.
\<close>

definition AddSong :: "string \<Rightarrow> string \<Rightarrow> Song \<Rightarrow> Player \<Rightarrow> PlayerError option \<times> Player" where
  "AddSong td vd song p =
     (if state p = Closed then (Some ErrPlayerClosed, p)
      else (None, p\<lparr>queue := queue p @ [song], textDest := Some td, voiceDest := Some vd\<rparr>))"

text \<open>
  Modelled from the spec: the steps of the player's control path. Whenever the player is
  Idle and the queue is not empty it dequeues the head and enters Loading; frames begin to
  flow (Playing); the song completes or fails and the player is Idle again.
\<close>

definition startNext :: "Player \<Rightarrow> Player" where
  "startNext p =
     (case queue p of
        [] \<Rightarrow> p
      | song # rest \<Rightarrow>
          if state p = Idle
          then p\<lparr>state := Loading, queue := rest, playing := Some song, sessionOpen := True\<rparr>
          else p)"

definition framesBegin :: "Player \<Rightarrow> Player" where
  "framesBegin p = (if state p = Loading then p\<lparr>state := Playing\<rparr> else p)"

definition songEnds :: "Player \<Rightarrow> Player" where
  "songEnds p =
     (if state p = Loading \<or> state p = Playing then p\<lparr>state := Idle, playing := None\<rparr> else p)"

text \<open>
  Modelled from the spec: \<open>SkipSong()\<close> cancels the stream in flight, if any, so that the
  control path advances to the next queued song; it is a no-op when Idle.
\<close>

definition SkipSong :: "Player \<Rightarrow> Player" where
  "SkipSong p =
     (if state p = Loading \<or> state p = Playing
      then p\<lparr>state := Idle, playing := None, cancelled := cancelled p + 1\<rparr>
      else p)"

text \<open>
  Modelled from the spec: \<open>Stop()\<close> cancels any stream in flight, clears the queue, closes
  the voice session and makes the player Closed; on a Closed player it is a no-op, and it
  never reports an error.
\<close>

definition Stop :: "Player \<Rightarrow> PlayerError option \<times> Player" where
  "Stop p =
     (if state p = Closed then (None, p)
      else (None,
        p\<lparr>state := Closed, queue := [], playing := None,
          cancelled := cancelled p + (if state p = Loading \<or> state p = Playing then 1 else 0),
          sessionOpen := False, sessionCloses := sessionCloses p + 1\<rparr>))"

text \<open>
  Modelled from the spec: \<open>Close()\<close>, called when the tenant is removed, is the same
  transition to Closed as \<open>Stop()\<close> (section 3: "explicit Stop/tenant removal").
\<close>

definition Close :: "Player \<Rightarrow> PlayerError option \<times> Player" where
  "Close p = Stop p"

text \<open>
  Modelled from the spec: \<open>RemoveSong(position)\<close> removes the song at the 1-based position
  of the pending queue and returns it; a position outside \<open>[1, len(pending)]\<close> fails with
  \<open>ErrRemoveInvalidPosition\<close> and leaves the player as it is.
\<close>

definition RemoveSong :: "int \<Rightarrow> Player \<Rightarrow> (PlayerError + Song) \<times> Player" where
  "RemoveSong position p =
     (if position < 1 \<or> int (length (queue p)) < position
      then (Inl ErrRemoveInvalidPosition, p)
      else let i = nat (position - 1) in
        (Inr (queue p ! i), p\<lparr>queue := take i (queue p) @ drop (Suc i) (queue p)\<rparr>))"

text \<open>
  Modelled from the spec: \<open>GetPlaylist()\<close> is a snapshot of the pending queue and
  \<open>GetPlayedSong()\<close> the song that is streaming, if any.
\<close>

definition GetPlaylist :: "Player \<Rightarrow> PlayerError + Song list" where
  "GetPlaylist p = Inr (queue p)"

definition GetPlayedSong :: "Player \<Rightarrow> PlayerError + Song option" where
  "GetPlayedSong p = Inr (playing p)"

text \<open>What happens to one player: the calls of \<open>AddSong\<close> and \<open>SkipSong\<close> and the steps of its control path.\<close>

datatype PlayerEvent =
  EvAddSong string string Song
| EvSkipSong
| EvStartNext
| EvFramesBegin
| EvSongEnds

fun playerStep :: "PlayerEvent \<Rightarrow> Player \<Rightarrow> Player" where
  "playerStep (EvAddSong td vd song) p = snd (AddSong td vd song p)"
| "playerStep EvSkipSong p = SkipSong p"
| "playerStep EvStartNext p = startNext p"
| "playerStep EvFramesBegin p = framesBegin p"
| "playerStep EvSongEnds p = songEnds p"

definition runPlayer :: "PlayerEvent list \<Rightarrow> Player \<Rightarrow> Player" where
  "runPlayer evs p = fold playerStep evs p"

text \<open>The songs of the \<open>AddSong\<close> calls of a trace, in the order of the calls.\<close>

fun addedSongs :: "PlayerEvent list \<Rightarrow> Song list" where
  "addedSongs [] = []"
| "addedSongs (EvAddSong td vd song # evs) = song # addedSongs evs"
| "addedSongs (_ # evs) = addedSongs evs"

text \<open>
  The invariant of the queue: the pending songs are what is left of the added songs after
  the first \<open>k\<close> of them were dequeued, and the slot holds nothing or the last song that was
  dequeued.
\<close>

definition fifo :: "Song list \<Rightarrow> Player \<Rightarrow> bool" where
  "fifo added p =
     (state p \<noteq> Closed \<and>
      (\<exists>k\<le>length added. queue p = drop k added \<and>
         (case playing p of None \<Rightarrow> True | Some song \<Rightarrow> 0 < k \<and> song = added ! (k - 1))))"

section \<open>The interaction handler\<close>

text \<open>What the handlers read of \<open>discordgo\<close>'s guilds, voice states and interactions.\<close>

record VoiceState =
  vsUserID :: string
  vsChannelID :: string

record Guild =
  gID :: string
  gUnavailable :: bool
  gVoiceStates :: "VoiceState list"

text \<open>
  \<open>icUserID\<close> is \<open>ic.Member.User.ID\<close>, \<open>icMemberName\<close> the result of \<open>getMemberName(ic.Member)\<close>,
  \<open>icMessageChannelID\<close> is \<open>ic.Message.ChannelID\<close> and \<open>icValues\<close> the
  \<open>MessageComponentData().Values\<close> of a component interaction.
\<close>

record Interaction =
  icGuildID :: string
  icChannelID :: string
  icUserID :: string
  icMemberName :: string
  icMessageChannelID :: string
  icValues :: "string list"

text \<open>The session: \<open>s.State.Guild(id)\<close> finds the guild in the state cache or fails.\<close>

record Session =
  State_Guild :: "string \<Rightarrow> Guild option"

text \<open>
  The options of a slash command. \<open>StringValue\<close> and \<open>IntValue\<close> panic on an option of
  another type, and on the nil pointer that the option map gives for a missing name.
\<close>

datatype OptionValue = StringOption string | IntegerOption int | OtherOption

type_synonym Options = "(string \<times> OptionValue) list"

text \<open>The loop \<open>optionMap[opt.Name] = opt\<close>: a later option of the same name wins.\<close>

definition optionMap :: "Options \<Rightarrow> string \<Rightarrow> OptionValue option" where
  "optionMap opts = map_of (rev opts)"

fun StringValue :: "OptionValue option \<Rightarrow> string option" where
  "StringValue (Some (StringOption v)) = Some v"
| "StringValue _ = None"

fun IntValue :: "OptionValue option \<Rightarrow> int option" where
  "IntValue (Some (IntegerOption v)) = Some v"
| "IntValue _ = None"

text \<open>The texts and embeds that the handlers send, by name.\<close>

datatype Message =
  ErrorMessageNotInVoiceChannel
| ErrorMessageFailedToAddSong
| MsgSomethingWentWrong
| MsgAlreadySelected
| MsgAddedSongs nat
| MsgStopped
| MsgSkipped
| MsgEmptyPlaylist
| MsgInvalidPosition
| MsgRemoved Song
| MsgNothingPlaying
| MsgNowPlaying Song

datatype Embed =
  AddingSongEmbed string
| FailedToAddSongEmbed string
| FailedToFindSong string
| AddedSongEmbed Song
| AskAddPlaylistEmbed "Song list"
| AddedToQueueEmbed Song
| PlaylistEmbed string

datatype PlayerCall =
  CallAddSong string string Song
| CallSkipSong
| CallStop
| CallClose
| CallRemoveSong int
| CallGetPlaylist
| CallGetPlayedSong
| CallGetVoiceChannelInfo
| CallStartListeningEvents
| CallRun

text \<open>
  What a handler does besides changing its own state, in the order in which it does it:
  the responses to the interaction, the start of the goroutine that looks the songs up,
  the lookup of songs, and the calls of the methods of the player of a guild.
  \<open>LockRegistry\<close> and \<open>UnlockRegistry\<close> stand for taking and releasing a lock that
  guards \<open>guildsPlayers\<close>: \<open>InteractionHandler\<close> has no such lock among its fields and no
  handler takes one, so no handler below has them among its effects.
\<close>

datatype Effect =
  Respond Message
| RespondServerError
| RespondEmbed Embed
| RespondDeferred Embed
| Followup Embed
| FollowupSelect Embed
| StartLookup Interaction VoiceState string string
| LookupSongs string
| OnPlayer string PlayerCall
| LockRegistry
| UnlockRegistry

datatype LookupError = LookupFailed

text \<open>
  Modelled from the spec: the implementation of \<open>InteractionStorage\<close> is not among the
  sources, and the spec leaves the command layer's storage out of its scope; \<open>main\<close> builds
  it with \<open>NewInMemoryStorage\<close>. It is taken to be the in-memory map from channel to song
  list that its three methods name; a channel without a list has the empty list.
\<close>

type_synonym InteractionStorage = "string \<rightharpoonup> Song list"

definition SaveSongList :: "string \<Rightarrow> Song list \<Rightarrow> InteractionStorage \<Rightarrow> InteractionStorage" where
  "SaveSongList channelID songs st = st(channelID \<mapsto> songs)"

definition GetSongList :: "string \<Rightarrow> InteractionStorage \<Rightarrow> Song list" where
  "GetSongList channelID st = (case st channelID of None \<Rightarrow> [] | Some songs \<Rightarrow> songs)"

definition DeleteSongList :: "string \<Rightarrow> InteractionStorage \<Rightarrow> InteractionStorage" where
  "DeleteSongList channelID st = st(channelID := None)"

text \<open>
  The fields of \<open>InteractionHandler\<close> that the handlers read or write; \<open>songLookuper\<close> is
  the \<open>LookupSongs\<close> of the interface of that name.
\<close>

record Handler =
  guildsPlayers :: "string \<rightharpoonup> Player"
  songLookuper :: "string \<Rightarrow> LookupError + Song list"
  storage :: InteractionStorage

datatype Outcome = Panic | Done Handler "Effect list"

definition setupGuildPlayer :: "string \<Rightarrow> Player" where
  "setupGuildPlayer guildID = NewGuildPlayer"

text \<open>\<open>getGuildPlayer\<close>: the player of the guild, set up and stored when there is none.\<close>

definition getGuildPlayer :: "string \<Rightarrow> Handler \<Rightarrow> Player \<times> Handler" where
  "getGuildPlayer guildID h =
     (case guildsPlayers h guildID of
        Some player \<Rightarrow> (player, h)
      | None \<Rightarrow>
          let player = setupGuildPlayer guildID
          in (player, h\<lparr>guildsPlayers := (guildsPlayers h)(guildID \<mapsto> player)\<rparr>))"

text \<open>
  A method that changes the player changes the object that the map points to: the new
  value of the player of the guild is written back.
\<close>

definition setPlayer :: "string \<Rightarrow> Player \<Rightarrow> Handler \<Rightarrow> Handler" where
  "setPlayer guildID player h = h\<lparr>guildsPlayers := (guildsPlayers h)(guildID \<mapsto> player)\<rparr>"

definition getUsersVoiceState :: "Guild \<Rightarrow> string \<Rightarrow> VoiceState option" where
  "getUsersVoiceState guild userID = find (\<lambda>vs. vsUserID vs = userID) (gVoiceStates guild)"

definition GuildCreate :: "Guild \<Rightarrow> Handler \<Rightarrow> Outcome" where
  "GuildCreate guild h =
     (if gUnavailable guild then Done h []
      else Done (setPlayer (gID guild) (setupGuildPlayer (gID guild)) h)
             [OnPlayer (gID guild) CallStartListeningEvents, OnPlayer (gID guild) CallRun])"

definition GuildDelete :: "Guild \<Rightarrow> Handler \<Rightarrow> Outcome" where
  "GuildDelete guild h =
     (let guildID = gID guild;
          (player, h1) = getGuildPlayer guildID h;
          (err, player') = Close player
      in Done (h1\<lparr>guildsPlayers := (guildsPlayers h1)(guildID := None)\<rparr>)
           [OnPlayer guildID CallClose])"

text \<open>
  \<open>PlaySong\<close>, up to the point where it has deferred its response and started the
  goroutine that looks the songs up; the handler returns there. The call of
  \<open>getVoiceChannelMembers\<close> only reads from the platform and logs.
\<close>

definition PlaySong :: "Session \<Rightarrow> Interaction \<Rightarrow> Options \<Rightarrow> Handler \<Rightarrow> Outcome" where
  "PlaySong s ic opt h =
     (case State_Guild s (icGuildID ic) of
        None \<Rightarrow> Done h [RespondServerError]
      | Some g \<Rightarrow>
          let (player, h1) = getGuildPlayer (gID g) h in
          (case StringValue (optionMap opt ''input'') of
             None \<Rightarrow> Panic
           | Some input \<Rightarrow>
               (case getUsersVoiceState g (icUserID ic) of
                  None \<Rightarrow> Done h1 [Respond ErrorMessageNotInVoiceChannel]
                | Some vs \<Rightarrow>
                    Done h1 [RespondDeferred (AddingSongEmbed input),
                             StartLookup ic vs input (gID g)])))"

text \<open>
  The goroutine holds the pointer to the player that the handler got from
  \<open>getGuildPlayer\<close>. When it runs, that player is still the one registered for the guild,
  or a \<open>GuildCreate\<close> or \<open>GuildDelete\<close> of the guild has come in between and the player is
  no longer in the map; then \<open>Orphaned\<close> gives its value at that moment.
\<close>

datatype Captured = StillRegistered | Orphaned Player

definition capturedPlayer :: "Captured \<Rightarrow> string \<Rightarrow> Handler \<Rightarrow> Player" where
  "capturedPlayer cap guildID h =
     (case cap of
        Orphaned player \<Rightarrow> player
      | StillRegistered \<Rightarrow>
          (case guildsPlayers h guildID of
             Some player \<Rightarrow> player
           | None \<Rightarrow> setupGuildPlayer guildID))"

text \<open>A change of the captured player shows in the map only when the map still holds that player.\<close>

definition writeCaptured :: "Captured \<Rightarrow> string \<Rightarrow> Player \<Rightarrow> Handler \<Rightarrow> Handler" where
  "writeCaptured cap guildID player h =
     (case cap of
        Orphaned old \<Rightarrow> h
      | StillRegistered \<Rightarrow>
          (case guildsPlayers h guildID of
             Some old \<Rightarrow> setPlayer guildID player h
           | None \<Rightarrow> h))"

text \<open>
  The goroutine that \<open>PlaySong\<close> has started (lines 151 to 209), run at some later moment
  on the handler as it is then: it looks the songs up, sets the requester of each, and adds
  the one song to the captured player or saves the list of several for the channel.
\<close>

definition playSongLookup ::
  "Interaction \<Rightarrow> VoiceState \<Rightarrow> string \<Rightarrow> string \<Rightarrow> Captured \<Rightarrow> Handler \<Rightarrow> Outcome" where
  "playSongLookup ic vs input guildID cap h =
     (case songLookuper h input of
        Inl err \<Rightarrow> Done h [LookupSongs input, Followup (FailedToAddSongEmbed input)]
      | Inr found \<Rightarrow>
          let songs = map (\<lambda>song. song\<lparr>RequestedBy := Some (icMemberName ic)\<rparr>) found in
          (case songs of
             [] \<Rightarrow> Done h [LookupSongs input, Followup (FailedToFindSong input)]
           | [song] \<Rightarrow>
               (case AddSong (icChannelID ic) (vsChannelID vs) song (capturedPlayer cap guildID h) of
                  (Some err, player') \<Rightarrow>
                    Done (writeCaptured cap guildID player' h)
                      [LookupSongs input,
                       OnPlayer guildID (CallAddSong (icChannelID ic) (vsChannelID vs) song),
                       Followup (FailedToAddSongEmbed input)]
                | (None, player') \<Rightarrow>
                    Done (writeCaptured cap guildID player' h)
                      [LookupSongs input,
                       OnPlayer guildID (CallAddSong (icChannelID ic) (vsChannelID vs) song),
                       Followup (AddedSongEmbed song)])
           | _ \<Rightarrow>
               Done (h\<lparr>storage := SaveSongList (icChannelID ic) songs (storage h)\<rparr>)
                 [LookupSongs input, FollowupSelect (AskAddPlaylistEmbed songs)]))"

text \<open>
  The loop of the \<open>playlist\<close> case: every song is added, and an error of \<open>AddSong\<close> is
  logged and the loop goes on.
\<close>

fun addPlaylist :: "string \<Rightarrow> string \<Rightarrow> string \<Rightarrow> Song list \<Rightarrow> Player \<Rightarrow> Player \<times> Effect list" where
  "addPlaylist guildID td vd [] player = (player, [])"
| "addPlaylist guildID td vd (song # rest) player =
     (let (err, player') = AddSong td vd song player;
          (player'', effs) = addPlaylist guildID td vd rest player'
      in (player'', OnPlayer guildID (CallAddSong td vd song) # effs))"

text \<open>
  \<open>AddSongOrPlaylist\<close>. In the case of the one song, once \<open>AddSong\<close> has succeeded, the
  embed is built from \<open>*song.RequestedBy\<close> (line 271): a song without a requester makes the
  handler panic there, after the song was added and before the response and the deletion
  of the stored list.
\<close>

definition AddSongOrPlaylist :: "Session \<Rightarrow> Interaction \<Rightarrow> Handler \<Rightarrow> Outcome" where
  "AddSongOrPlaylist s ic h =
     (case icValues ic of
        [] \<Rightarrow> Done h [Respond MsgSomethingWentWrong]
      | value # _ \<Rightarrow>
          (case State_Guild s (icGuildID ic) of
             None \<Rightarrow> Done h [RespondServerError]
           | Some g \<Rightarrow>
               (case GetSongList (icChannelID ic) (storage h) of
                  [] \<Rightarrow> Done h [Respond MsgAlreadySelected]
                | song # others \<Rightarrow>
                    let songs = song # others;
                        (player, h1) = getGuildPlayer (gID g) h in
                    (case getUsersVoiceState g (icUserID ic) of
                       None \<Rightarrow> Done h1 [Respond ErrorMessageNotInVoiceChannel]
                     | Some vs \<Rightarrow>
                         let td = icMessageChannelID ic;
                             vd = vsChannelID vs;
                             added =
                               (if value = ''playlist''
                                then let (p', es) = addPlaylist (gID g) td vd songs player
                                     in Some (p', es @ [Respond (MsgAddedSongs (length songs))])
                                else (case AddSong td vd song player of
                                        (Some err, p') \<Rightarrow>
                                          Some (p', [OnPlayer (gID g) (CallAddSong td vd song),
                                                     Respond ErrorMessageFailedToAddSong])
                                      | (None, p') \<Rightarrow>
                                          (case RequestedBy song of
                                             None \<Rightarrow> None
                                           | Some requester \<Rightarrow>
                                               Some (p', [OnPlayer (gID g) (CallAddSong td vd song),
                                                          RespondEmbed (AddedToQueueEmbed song)]))))
                         in (case added of
                               None \<Rightarrow> Panic
                             | Some (player', effs) \<Rightarrow>
                                 let h2 = setPlayer (gID g) player' h1
                                 in Done (h2\<lparr>storage := DeleteSongList (icChannelID ic) (storage h2)\<rparr>)
                                      effs)))))"

definition StopPlaying :: "Session \<Rightarrow> Interaction \<Rightarrow> Handler \<Rightarrow> Outcome" where
  "StopPlaying s ic h =
     (case State_Guild s (icGuildID ic) of
        None \<Rightarrow> Done h [RespondServerError]
      | Some g \<Rightarrow>
          let (player, h1) = getGuildPlayer (gID g) h in
          (case Stop player of
             (Some err, player') \<Rightarrow>
               Done (setPlayer (gID g) player' h1) [OnPlayer (gID g) CallStop, RespondServerError]
           | (None, player') \<Rightarrow>
               Done (setPlayer (gID g) player' h1) [OnPlayer (gID g) CallStop, Respond MsgStopped]))"

definition SkipSongHandler :: "Session \<Rightarrow> Interaction \<Rightarrow> Handler \<Rightarrow> Outcome" where
  "SkipSongHandler s ic h =
     (case State_Guild s (icGuildID ic) of
        None \<Rightarrow> Done h [RespondServerError]
      | Some g \<Rightarrow>
          let (player, h1) = getGuildPlayer (gID g) h in
          Done (setPlayer (gID g) (SkipSong player) h1)
            [OnPlayer (gID g) CallSkipSong, Respond MsgSkipped])"

text \<open>
  \<open>ListPlaylist\<close>; \<open>str\<close> renders a song for \<open>%s\<close>. When \<open>GetPlaylist\<close> fails the error is
  logged and nothing is sent.
\<close>

definition ListPlaylist :: "(Song \<Rightarrow> string) \<Rightarrow> Session \<Rightarrow> Interaction \<Rightarrow> Handler \<Rightarrow> Outcome" where
  "ListPlaylist str s ic h =
     (case State_Guild s (icGuildID ic) of
        None \<Rightarrow> Done h [RespondServerError]
      | Some g \<Rightarrow>
          let (player, h1) = getGuildPlayer (gID g) h in
          (case GetPlaylist player of
             Inl err \<Rightarrow> Done h1 [OnPlayer (gID g) CallGetPlaylist]
           | Inr playlist \<Rightarrow>
               if length playlist = 0
               then Done h1 [OnPlayer (gID g) CallGetPlaylist, Respond MsgEmptyPlaylist]
               else Done h1 [OnPlayer (gID g) CallGetPlaylist,
                             RespondEmbed (PlaylistEmbed (playlistMessage str playlist))]))"

definition RemoveSongHandler :: "Session \<Rightarrow> Interaction \<Rightarrow> Options \<Rightarrow> Handler \<Rightarrow> Outcome" where
  "RemoveSongHandler s ic opt h =
     (case State_Guild s (icGuildID ic) of
        None \<Rightarrow> Done h [RespondServerError]
      | Some g \<Rightarrow>
          let (player, h1) = getGuildPlayer (gID g) h in
          (case IntValue (optionMap opt ''position'') of
             None \<Rightarrow> Panic
           | Some position \<Rightarrow>
               (case RemoveSong position player of
                  (Inl err, player') \<Rightarrow>
                    if err = ErrRemoveInvalidPosition
                    then Done (setPlayer (gID g) player' h1)
                           [OnPlayer (gID g) (CallRemoveSong position), Respond MsgInvalidPosition]
                    else Done (setPlayer (gID g) player' h1)
                           [OnPlayer (gID g) (CallRemoveSong position), RespondServerError]
                | (Inr song, player') \<Rightarrow>
                    Done (setPlayer (gID g) player' h1)
                      [OnPlayer (gID g) (CallRemoveSong position), Respond (MsgRemoved song)])))"

definition GetPlayingSong :: "Session \<Rightarrow> Interaction \<Rightarrow> Handler \<Rightarrow> Outcome" where
  "GetPlayingSong s ic h =
     (case State_Guild s (icGuildID ic) of
        None \<Rightarrow> Done h [RespondServerError]
      | Some g \<Rightarrow>
          let (player, h1) = getGuildPlayer (gID g) h in
          (case GetPlayedSong player of
             Inl err \<Rightarrow> Done h1 [OnPlayer (gID g) CallGetPlayedSong, RespondServerError]
           | Inr None \<Rightarrow> Done h1 [OnPlayer (gID g) CallGetPlayedSong, Respond MsgNothingPlaying]
           | Inr (Some song) \<Rightarrow>
               Done h1 [OnPlayer (gID g) CallGetPlayedSong, Respond (MsgNowPlaying song)]))"

text \<open>
  The events that the platform binding hands to the handler, each with its arguments, and
  the run of a lookup goroutine that an earlier \<open>PlaySong\<close> has started.
\<close>

datatype Event =
  OnGuildCreate Guild
| OnGuildDelete Guild
| OnPlaySong Session Interaction Options
| OnPlaySongLookup Interaction VoiceState string string Captured
| OnAddSongOrPlaylist Session Interaction
| OnStopPlaying Session Interaction
| OnSkipSong Session Interaction
| OnListPlaylist Session Interaction
| OnRemoveSong Session Interaction Options
| OnGetPlayingSong Session Interaction

fun handle :: "(Song \<Rightarrow> string) \<Rightarrow> Event \<Rightarrow> Handler \<Rightarrow> Outcome" where
  "handle str (OnGuildCreate g) h = GuildCreate g h"
| "handle str (OnGuildDelete g) h = GuildDelete g h"
| "handle str (OnPlaySong s ic opt) h = PlaySong s ic opt h"
| "handle str (OnPlaySongLookup ic vs input guildID cap) h = playSongLookup ic vs input guildID cap h"
| "handle str (OnAddSongOrPlaylist s ic) h = AddSongOrPlaylist s ic h"
| "handle str (OnStopPlaying s ic) h = StopPlaying s ic h"
| "handle str (OnSkipSong s ic) h = SkipSongHandler s ic h"
| "handle str (OnListPlaylist s ic) h = ListPlaylist str s ic h"
| "handle str (OnRemoveSong s ic opt) h = RemoveSongHandler s ic opt h"
| "handle str (OnGetPlayingSong s ic) h = GetPlayingSong s ic h"

text \<open>A run of events, one after the other; a panic ends the process and there is no state after it.\<close>

fun handleAll :: "(Song \<Rightarrow> string) \<Rightarrow> Event list \<Rightarrow> Handler \<Rightarrow> Handler option" where
  "handleAll str [] h = Some h"
| "handleAll str (ev # evs) h =
     (case handle str ev h of Panic \<Rightarrow> None | Done h' effs \<Rightarrow> handleAll str evs h')"

text \<open>The guild that an event names, when it finds one.\<close>

fun interactionGuild :: "Session \<Rightarrow> Interaction \<Rightarrow> string set" where
  "interactionGuild s ic = (case State_Guild s (icGuildID ic) of None \<Rightarrow> {} | Some g \<Rightarrow> {gID g})"

fun eventGuild :: "Event \<Rightarrow> string set" where
  "eventGuild (OnGuildCreate g) = {gID g}"
| "eventGuild (OnGuildDelete g) = {gID g}"
| "eventGuild (OnPlaySong s ic opt) = interactionGuild s ic"
| "eventGuild (OnPlaySongLookup ic vs input guildID cap) = {guildID}"
| "eventGuild (OnAddSongOrPlaylist s ic) = interactionGuild s ic"
| "eventGuild (OnStopPlaying s ic) = interactionGuild s ic"
| "eventGuild (OnSkipSong s ic) = interactionGuild s ic"
| "eventGuild (OnListPlaylist s ic) = interactionGuild s ic"
| "eventGuild (OnRemoveSong s ic opt) = interactionGuild s ic"
| "eventGuild (OnGetPlayingSong s ic) = interactionGuild s ic"

fun isGuildDelete :: "Event \<Rightarrow> bool" where
  "isGuildDelete (OnGuildDelete g) = True"
| "isGuildDelete _ = False"

text \<open>
  The lookup goroutine of \<open>PlaySong\<close> is the one place that saves a song list; it saves it
  under the channel of the interaction.
\<close>

fun savesSongList :: "string \<Rightarrow> Event \<Rightarrow> bool" where
  "savesSongList channelID (OnPlaySongLookup ic vs input guildID cap) = (icChannelID ic = channelID)"
| "savesSongList channelID _ = False"

text \<open>The command handlers that go to \<open>getGuildPlayer\<close> as soon as they have found the guild.\<close>

fun looksUpPlayer :: "Event \<Rightarrow> bool" where
  "looksUpPlayer (OnGuildCreate g) = False"
| "looksUpPlayer (OnGuildDelete g) = False"
| "looksUpPlayer (OnAddSongOrPlaylist s ic) = False"
| "looksUpPlayer (OnPlaySongLookup ic vs input guildID cap) = False"
| "looksUpPlayer _ = True"

text \<open>
  Every song of every stored list has its requester: the lookup goroutine sets it before
  it saves a list.
\<close>

definition requested :: "Handler \<Rightarrow> bool" where
  "requested h = (\<forall>channelID songs. storage h channelID = Some songs \<longrightarrow>
      (\<forall>song\<in>set songs. RequestedBy song \<noteq> None))"

section \<open>The presence monitor\<close>

record VoiceChannelInfo =
  Members :: "string list"

text \<open>
  The body of the loop over \<open>handler.guildsPlayers\<close> for one entry of the map. The method
  \<open>GetVoiceChannelInfo\<close> of the player is not among the sources and asks the platform: the
  map that it returns for the player of a guild at this tick is \<open>occ guildID\<close>.
\<close>

definition checkGuild :: "(string \<Rightarrow> string \<rightharpoonup> VoiceChannelInfo) \<Rightarrow> string \<Rightarrow> Handler \<Rightarrow> Handler \<times> Effect list" where
  "checkGuild occ guildID h =
     (case guildsPlayers h guildID of
        None \<Rightarrow> (h, [])
      | Some player \<Rightarrow>
          (case occ guildID guildID of
             None \<Rightarrow> (h, [OnPlayer guildID CallGetVoiceChannelInfo])
           | Some voiceChannelInfo \<Rightarrow>
               if length (Members voiceChannelInfo) = 1
               then let (err, player') = Stop player
                    in (setPlayer guildID player' h,
                        [OnPlayer guildID CallGetVoiceChannelInfo, OnPlayer guildID CallStop])
               else (h, [OnPlayer guildID CallGetVoiceChannelInfo])))"

text \<open>
  One tick: the loop over the map, whose keys come in the order \<open>ks\<close> (Go fixes no order
  for the iteration of a map).
\<close>

fun presenceTick :: "(string \<Rightarrow> string \<rightharpoonup> VoiceChannelInfo) \<Rightarrow> string list \<Rightarrow> Handler \<Rightarrow> Handler \<times> Effect list" where
  "presenceTick occ [] h = (h, [])"
| "presenceTick occ (guildID # rest) h =
     (let (h1, effs1) = checkGuild occ guildID h;
          (h2, effs2) = presenceTick occ rest h1
      in (h2, effs1 @ effs2))"

text \<open>
  What the \<open>select\<close> of the monitor receives: a tick of the ticker, with the occupancy and
  the order of the iteration at that moment, or the end of the handler's context.
\<close>

datatype Select = TickerC "string \<Rightarrow> string \<rightharpoonup> VoiceChannelInfo" "string list" | CtxDone

text \<open>
  \<open>CheckVoiceChannelsPresence\<close> on the sequence of what its \<open>select\<close> receives. The first
  component says whether the function has returned; with nothing left to receive it is
  still waiting.
\<close>

fun CheckVoiceChannelsPresence :: "Select list \<Rightarrow> Handler \<Rightarrow> bool \<times> Handler \<times> Effect list" where
  "CheckVoiceChannelsPresence [] h = (False, h, [])"
| "CheckVoiceChannelsPresence (CtxDone # rest) h = (True, h, [])"
| "CheckVoiceChannelsPresence (TickerC occ ks # rest) h =
     (let (h1, effs1) = presenceTick occ ks h;
          (returned, h2, effs2) = CheckVoiceChannelsPresence rest h1
      in (returned, h2, effs1 @ effs2))"

text \<open>The channel of a guild has exactly one member at this tick.\<close>

definition soleOccupant :: "(string \<Rightarrow> string \<rightharpoonup> VoiceChannelInfo) \<Rightarrow> string \<Rightarrow> bool" where
  "soleOccupant occ guildID =
     (case occ guildID guildID of None \<Rightarrow> False | Some info \<Rightarrow> length (Members info) = 1)"

text \<open>
  The calls that one tick makes for one key of the map: it asks the player of the guild for
  the occupancy, and calls \<open>Stop\<close> when the channel of the guild has one member.
\<close>

definition tickCalls :: "(string \<Rightarrow> string \<rightharpoonup> VoiceChannelInfo) \<Rightarrow> Handler \<Rightarrow> string \<Rightarrow> Effect list" where
  "tickCalls occ h guildID =
     (case guildsPlayers h guildID of
        None \<Rightarrow> []
      | Some player \<Rightarrow>
          OnPlayer guildID CallGetVoiceChannelInfo
          # (if soleOccupant occ guildID then [OnPlayer guildID CallStop] else []))"

section \<open>The cache layer\<close>

text \<open>
  Modelled from the spec: the package \<open>cache\<close> is not among the sources. Section 3 of the
  spec gives an entry a key, a payload, a size and the time of its last access; the cache
  has a configured capacity and counters of hits and misses. Time is a counter that every
  operation advances.
\<close>

record 'a CacheEntry =
  ceKey :: string
  cePayload :: 'a
  ceSize :: nat
  ceLastAccess :: nat

record 'a Cache =
  entries :: "'a CacheEntry list"
  capacity :: nat
  clock :: nat
  hits :: nat
  misses :: nat

definition totalSize :: "'a CacheEntry list \<Rightarrow> nat" where
  "totalSize es = sum_list (map ceSize es)"

text \<open>Modelled from the spec: the entry with the oldest last access, the first of them in the list.\<close>

fun oldest :: "'a CacheEntry \<Rightarrow> 'a CacheEntry list \<Rightarrow> 'a CacheEntry" where
  "oldest e [] = e"
| "oldest e (x # xs) = oldest (if ceLastAccess x < ceLastAccess e then x else e) xs"

definition evictOne :: "'a CacheEntry list \<Rightarrow> 'a CacheEntry list" where
  "evictOne es = (case es of [] \<Rightarrow> [] | e # rest \<Rightarrow> remove1 (oldest e rest) (e # rest))"

text \<open>
  Modelled from the spec: the eviction sweep before an addition of size \<open>need\<close>. While the
  addition would exceed the capacity and there is an entry left, the least recently used
  entry is evicted.
\<close>

function evictFor :: "nat \<Rightarrow> nat \<Rightarrow> 'a CacheEntry list \<Rightarrow> 'a CacheEntry list" where
  "evictFor need cap es =
     (if es \<noteq> [] \<and> cap < totalSize es + need then evictFor need cap (evictOne es) else es)"
  by pat_completeness auto
termination
proof (relation "measure (\<lambda>(need, cap, es). length es)")
  show "wf (measure (\<lambda>(need, cap, es). length es))" by simp
next
  fix need cap :: nat and es :: "'a CacheEntry list"
  assume "es \<noteq> [] \<and> cap < totalSize es + need"
  then obtain e rest where es: "es = e # rest" by (cases es) auto
  have "oldest x xs \<in> set (x # xs)" for x :: "'a CacheEntry" and xs
    by (induction xs arbitrary: x) auto
  then have "oldest e rest \<in> set (e # rest)" .
  then have "length (remove1 (oldest e rest) (e # rest)) < length (e # rest)"
    unfolding length_remove1 by simp
  then show "((need, cap, evictOne es), (need, cap, es)) \<in> measure (\<lambda>(need, cap, es). length es)"
    by (simp add: es evictOne_def)
qed

declare evictFor.simps [simp del]

text \<open>
  Modelled from the spec: a probe of the cache. A hit returns the payload, counts as a hit
  and makes the entry the most recently used; a miss counts as a miss.
\<close>

definition cacheGet :: "string \<Rightarrow> 'a Cache \<Rightarrow> 'a option \<times> 'a Cache" where
  "cacheGet k c =
     (case find (\<lambda>e. ceKey e = k) (entries c) of
        None \<Rightarrow> (None, c\<lparr>clock := clock c + 1, misses := misses c + 1\<rparr>)
      | Some e \<Rightarrow>
          (Some (cePayload e),
           c\<lparr>entries := map (\<lambda>x. if ceKey x = k then x\<lparr>ceLastAccess := clock c\<rparr> else x) (entries c),
             clock := clock c + 1, hits := hits c + 1\<rparr>))"

text \<open>
  Modelled from the spec: storing a result. Keys are unique, so an entry of the same key is
  replaced; least recently used entries are evicted if the addition would exceed the
  configured capacity; then the new entry is stored as the most recently used one. The
  total size never exceeds the configured capacity (section 3), so a result that does not
  fit even after the sweep, being larger than the whole cache, is not kept.
\<close>

definition cachePut :: "string \<Rightarrow> 'a \<Rightarrow> nat \<Rightarrow> 'a Cache \<Rightarrow> 'a Cache" where
  "cachePut k v sz c =
     (let kept = evictFor sz (capacity c) (filter (\<lambda>e. ceKey e \<noteq> k) (entries c))
      in c\<lparr>entries :=
             (if totalSize kept + sz \<le> capacity c
              then kept @ [\<lparr>ceKey = k, cePayload = v, ceSize = sz, ceLastAccess = clock c\<rparr>]
              else kept),
           clock := clock c + 1\<rparr>)"

text \<open>Modelled from the spec: a new cache of the configured capacity is empty.\<close>

definition newCache :: "nat \<Rightarrow> 'a Cache" where
  "newCache cap = \<lparr>entries = [], capacity = cap, clock = 0, hits = 0, misses = 0\<rparr>"

datatype 'a CacheOp = Probe string | Store string 'a nat

fun cacheStep :: "'a CacheOp \<Rightarrow> 'a Cache \<Rightarrow> 'a Cache" where
  "cacheStep (Probe k) c = snd (cacheGet k c)"
| "cacheStep (Store k v sz) c = cachePut k v sz c"

definition runCache :: "'a CacheOp list \<Rightarrow> 'a Cache \<Rightarrow> 'a Cache" where
  "runCache ops c = fold cacheStep ops c"

definition cacheKeys :: "'a Cache \<Rightarrow> string set" where
  "cacheKeys c = ceKey ` set (entries c)"

text \<open>No entry is stamped with a time that is still to come.\<close>

definition stamped :: "'a Cache \<Rightarrow> bool" where
  "stamped c = list_all (\<lambda>e. ceLastAccess e < clock c) (entries c)"

section \<open>Example inputs\<close>

text \<open>
  Concrete inputs at which the theorems below are instantiated: songs, a guild with and
  without a voice state of the user, sessions that know the guild, an interaction, handlers
  with no player, with one player, with a lookup that finds two songs and with the list of
  them stored, occupancies of one and of two members, and a cache of three entries.
\<close>

definition exSong :: Song where
  "exSong = \<lparr>URL = ''u'', Title = ''t'', Duration = 0, ThumbnailURL = None, RequestedBy = None\<rparr>"

definition exGuild :: Guild where
  "exGuild = \<lparr>gID = ''g'', gUnavailable = False, gVoiceStates = []\<rparr>"

definition exSession :: Session where
  "exSession = \<lparr>State_Guild = (\<lambda>id. if id = ''g'' then Some exGuild else None)\<rparr>"

definition exInteraction :: Interaction where
  "exInteraction = \<lparr>icGuildID = ''g'', icChannelID = ''c'', icUserID = ''u1'', icMemberName = ''m'',
     icMessageChannelID = ''c'', icValues = [''song'']\<rparr>"

definition exHandler :: "Player \<Rightarrow> Handler" where
  "exHandler p = \<lparr>guildsPlayers = [''g'' \<mapsto> p], songLookuper = (\<lambda>input. Inl LookupFailed), storage = Map.empty\<rparr>"

definition longName :: "Song \<Rightarrow> string" where
  "longName song = replicate 3995 (CHR ''a'')"

definition exTitled :: "string \<Rightarrow> Song" where
  "exTitled t = exSong\<lparr>Title := t\<rparr>"

definition exPlaying :: Player where
  "exPlaying = NewGuildPlayer\<lparr>state := Playing, queue := [exTitled ''B'', exTitled ''C''],
     playing := Some (exTitled ''A''), sessionOpen := True\<rparr>"

definition exStopped :: Player where
  "exStopped = NewGuildPlayer\<lparr>state := Closed, sessionCloses := 1, cancelled := 1\<rparr>"

definition exVoiceGuild :: Guild where
  "exVoiceGuild = exGuild\<lparr>gVoiceStates := [\<lparr>vsUserID = ''u1'', vsChannelID = ''vc''\<rparr>]\<rparr>"

definition exVoiceSession :: Session where
  "exVoiceSession = \<lparr>State_Guild = (\<lambda>id. if id = ''g'' then Some exVoiceGuild else None)\<rparr>"

definition exRequested :: "string \<Rightarrow> Song" where
  "exRequested t = (exTitled t)\<lparr>RequestedBy := Some ''m''\<rparr>"

definition exFinder :: Handler where
  "exFinder = (exHandler NewGuildPlayer)\<lparr>songLookuper := (\<lambda>input. Inr [exTitled ''A'', exTitled ''B''])\<rparr>"

definition exSaved :: Handler where
  "exSaved = exFinder\<lparr>storage := [''c'' \<mapsto> [exRequested ''A'', exRequested ''B'']]\<rparr>"

definition exAdded :: Handler where
  "exAdded = exFinder\<lparr>guildsPlayers := [''g'' \<mapsto> NewGuildPlayer\<lparr>queue := [exRequested ''A''],
     textDest := Some ''c'', voiceDest := Some ''vc''\<rparr>]\<rparr>"

definition exEmpty :: Handler where
  "exEmpty = \<lparr>guildsPlayers = Map.empty, songLookuper = (\<lambda>input. Inl LookupFailed), storage = Map.empty\<rparr>"

definition exAlone :: "string \<Rightarrow> string \<rightharpoonup> VoiceChannelInfo" where
  "exAlone guildID = [guildID \<mapsto> \<lparr>Members = [''bot'']\<rparr>]"

definition exCrowd :: "string \<Rightarrow> string \<rightharpoonup> VoiceChannelInfo" where
  "exCrowd guildID = [guildID \<mapsto> \<lparr>Members = [''bot'', ''u1'']\<rparr>]"

definition exEntry :: "string \<Rightarrow> nat \<Rightarrow> nat \<Rightarrow> string CacheEntry" where
  "exEntry k sz t = \<lparr>ceKey = k, cePayload = ''frames of '' @ k, ceSize = sz, ceLastAccess = t\<rparr>"

definition exCache :: "string Cache" where
  "exCache = \<lparr>entries = [exEntry ''x'' 3 0, exEntry ''y'' 3 1, exEntry ''w'' 3 2],
     capacity = 10, clock = 3, hits = 0, misses = 0\<rparr>"

section \<open>Properties of the playlist message\<close>

lemma dropRunes_length: "length (dropRunes ps s) \<le> length s"
proof (induction ps s rule: dropRunes.induct)
  case (1 ps s)
  show ?case
  proof (cases "find (\<lambda>p. p \<noteq> [] \<and> take (length p) s = p) ps")
    case None
    then show ?thesis by (subst dropRunes.simps) simp
  next
    case (Some p)
    have "length (dropRunes ps (drop (length p) s)) \<le> length (drop (length p) s)"
      using "1.IH" [OF Some] .
    then show ?thesis using Some by (subst dropRunes.simps) simp
  qed
qed

lemma TrimSpace_length: "length (TrimSpace s) \<le> length s"
proof -
  have "length (TrimSpace s) \<le> length (rev (dropRunes spaceRunes s))"
    unfolding TrimSpace_def
    using dropRunes_length [of "map rev spaceRunes" "rev (dropRunes spaceRunes s)"] by simp
  also have "\<dots> \<le> length s"
    using dropRunes_length [of spaceRunes s] by simp
  finally show ?thesis .
qed

text \<open>A string that starts with a byte of no encoding is left as it is.\<close>

lemma dropRunes_stops:
  assumes "\<forall>p\<in>set ps. c \<notin> set p"
  shows "dropRunes ps (c # t) = c # t"
proof -
  have "\<not> (p \<noteq> [] \<and> take (length p) (c # t) = p)" if "p \<in> set ps" for p
  proof
    assume h: "p \<noteq> [] \<and> take (length p) (c # t) = p"
    then obtain a q where p: "p = a # q" by (cases p) auto
    with h have "a = c" by simp
    with p have "c \<in> set p" by simp
    with assms that show False by blast
  qed
  then have "find (\<lambda>p. p \<noteq> [] \<and> take (length p) (c # t) = p) ps = None"
    by (simp add: find_None_iff)
  then show ?thesis by (subst dropRunes.simps) simp
qed

text \<open>The scan never reaches into a tail that starts with a byte of no encoding.\<close>

lemma dropRunes_keeps_tail:
  assumes "\<forall>p\<in>set ps. c \<notin> set p"
  shows "\<exists>x'. dropRunes ps (x @ c # t) = x' @ c # t"
proof (induction "length x" arbitrary: x rule: less_induct)
  case less
  show ?case
  proof (cases "find (\<lambda>p. p \<noteq> [] \<and> take (length p) (x @ c # t) = p) ps")
    case None
    then have "dropRunes ps (x @ c # t) = x @ c # t"
      by (subst dropRunes.simps) simp
    then show ?thesis by blast
  next
    case (Some p)
    then have pin: "p \<in> set ps" and pne: "p \<noteq> []" and tk: "take (length p) (x @ c # t) = p"
      by (auto simp: find_Some_iff)
    have le: "length p \<le> length x"
    proof (rule ccontr)
      assume "\<not> length p \<le> length x"
      then have lt: "length x < length p" by simp
      have "p ! length x = take (length p) (x @ c # t) ! length x"
        using tk by simp
      also have "\<dots> = (x @ c # t) ! length x"
        by (rule nth_take) (rule lt)
      also have "\<dots> = c" by simp
      finally have "c \<in> set p"
        using lt nth_mem [of "length x" p] by auto
      with assms pin show False by blast
    qed
    then have dr: "drop (length p) (x @ c # t) = drop (length p) x @ c # t"
      by simp
    have "length (drop (length p) x) < length x"
      using pne le by (cases x) auto
    from less [OF this] obtain x' where
      "dropRunes ps (drop (length p) x @ c # t) = x' @ c # t" by blast
    then have "dropRunes ps (x @ c # t) = x' @ c # t"
      using Some dr by (subst dropRunes.simps) simp
    then show ?thesis by blast
  qed
qed

lemma dot_in_no_space:
  "\<forall>p\<in>set spaceRunes. CHR ''.'' \<notin> set p"
  "\<forall>p\<in>set (map rev spaceRunes). CHR ''.'' \<notin> set p"
  by (simp_all add: spaceRunes_def)

lemma TrimSpace_dots: "suffix ''...'' (TrimSpace (x @ ''...''))"
proof -
  obtain x' where l: "dropRunes spaceRunes (x @ ''...'') = x' @ ''...''"
    using dropRunes_keeps_tail [OF dot_in_no_space(1), of x "''..''"] by auto
  have "dropRunes (map rev spaceRunes) (rev (x' @ ''...'')) = rev (x' @ ''...'')"
    using dropRunes_stops [OF dot_in_no_space(2), of "''..'' @ rev x'"] by simp
  then have "TrimSpace (x @ ''...'') = x' @ ''...''"
    unfolding TrimSpace_def l by simp
  then show ?thesis by (simp add: suffix_def)
qed

text \<open>The loop, described by the number \<open>k\<close> of lines it appends.\<close>

lemma playlistLoop_shape:
  assumes "length b \<le> 4000"
  shows "\<exists>k\<le>length songs.
      playlistLoop str idx songs b =
        b @ concat (take k (playlistLines str idx songs)) @ (if k < length songs then ''...'' else [])
    \<and> length (b @ concat (take k (playlistLines str idx songs))) \<le> 4000
    \<and> (k < length songs \<longrightarrow>
         4000 < length (b @ concat (take (Suc k) (playlistLines str idx songs))))"
  using assms
proof (induction songs arbitrary: idx b)
  case Nil
  then show ?case by simp
next
  case (Cons song rest)
  let ?line = "playlistLine str idx song"
  show ?case
  proof (cases "length ?line + length b > 4000")
    case True
    with Cons.prems show ?thesis
      by (intro exI [of _ 0]) (simp add: Let_def)
  next
    case False
    then have "length (b @ ?line) \<le> 4000" by simp
    from Cons.IH [OF this, of "idx + 1"] obtain k where k: "k \<le> length rest"
      "playlistLoop str (idx + 1) rest (b @ ?line) =
         (b @ ?line) @ concat (take k (playlistLines str (idx + 1) rest))
           @ (if k < length rest then ''...'' else [])"
      "length ((b @ ?line) @ concat (take k (playlistLines str (idx + 1) rest))) \<le> 4000"
      "k < length rest \<longrightarrow>
         4000 < length ((b @ ?line) @ concat (take (Suc k) (playlistLines str (idx + 1) rest)))"
      by blast
    show ?thesis
      using False k by (intro exI [of _ "Suc k"]) (simp add: Let_def)
  qed
qed

lemma playlistMessage_shape:
  fixes str :: "'song \<Rightarrow> string"
  shows "\<exists>k\<le>length playlist.
      playlistMessage str playlist =
        TrimSpace (concat (take k (playlistLines str 0 playlist))
                   @ (if k < length playlist then ''...'' else []))
    \<and> length (concat (take k (playlistLines str 0 playlist))) \<le> 4000
    \<and> (k < length playlist \<longrightarrow>
         4000 < length (concat (take (Suc k) (playlistLines str 0 playlist))))
    \<and> (k < length playlist \<longrightarrow> suffix ''...'' (playlistMessage str playlist))
    \<and> length (playlistMessage str playlist) \<le> 4003"
proof -
  let ?L = "playlistLines str 0 playlist"
  obtain k where k: "k \<le> length playlist"
    and loop: "playlistLoop str 0 playlist [] =
                 concat (take k ?L) @ (if k < length playlist then ''...'' else [])"
    and fit: "length (concat (take k ?L)) \<le> 4000"
    and next_line: "k < length playlist \<longrightarrow> 4000 < length (concat (take (Suc k) ?L))"
    using playlistLoop_shape [of "[]" playlist str 0] by auto
  have msg: "playlistMessage str playlist =
      TrimSpace (concat (take k ?L) @ (if k < length playlist then ''...'' else []))"
    by (simp add: playlistMessage_def loop)
  have dots: "suffix ''...'' (playlistMessage str playlist)" if "k < length playlist"
    using that TrimSpace_dots [of "concat (take k ?L)"] by (simp add: msg)
  have "length (playlistMessage str playlist)
      \<le> length (concat (take k ?L) @ (if k < length playlist then ''...'' else []))"
    unfolding msg by (rule TrimSpace_length)
  also have "\<dots> \<le> 4003"
    using fit by simp
  finally have "length (playlistMessage str playlist) \<le> 4003" .
  with k msg fit next_line dots show ?thesis
    by blast
qed

text \<open>
  C8. Whatever the playlist, the description of the embed that \<open>ListPlaylist\<close> sends is
  made of the numbered lines of the first \<open>k\<close> songs, in order, for the \<open>k\<close> up to which
  the lines together stay at or under 4000 bytes: the line of the next song, if there is
  one, would pass 4000, the description then ends with \<open>...\<close> and lists no further song.
  The description is never longer than 4003 bytes.
\<close>

theorem ListPlaylist_description_bounded:
  assumes "ListPlaylist str s ic h = Done h' effs"
    and "RespondEmbed (PlaylistEmbed d) \<in> set effs"
  shows "\<exists>g playlist k.
      State_Guild s (icGuildID ic) = Some g
    \<and> GetPlaylist (fst (getGuildPlayer (gID g) h)) = Inr playlist
    \<and> k \<le> length playlist
    \<and> d = TrimSpace (concat (take k (playlistLines str 0 playlist))
                      @ (if k < length playlist then ''...'' else []))
    \<and> length (concat (take k (playlistLines str 0 playlist))) \<le> 4000
    \<and> (k < length playlist \<longrightarrow>
         4000 < length (concat (take (Suc k) (playlistLines str 0 playlist))))
    \<and> (k < length playlist \<longrightarrow> suffix ''...'' d)
    \<and> length d \<le> 4003"
proof -
  obtain g where g: "State_Guild s (icGuildID ic) = Some g"
    using assms by (cases "State_Guild s (icGuildID ic)") (auto simp: ListPlaylist_def)
  obtain player h1 where gp: "getGuildPlayer (gID g) h = (player, h1)"
    by (cases "getGuildPlayer (gID g) h")
  have pl: "GetPlaylist player = Inr (queue player)"
    by (simp add: GetPlaylist_def)
  have d: "d = playlistMessage str (queue player)"
    using assms g gp pl by (auto simp: ListPlaylist_def split: if_splits)
  from playlistMessage_shape [of "queue player" str] obtain k where
    "k \<le> length (queue player)"
    "playlistMessage str (queue player) =
        TrimSpace (concat (take k (playlistLines str 0 (queue player)))
                   @ (if k < length (queue player) then ''...'' else []))"
    "length (concat (take k (playlistLines str 0 (queue player)))) \<le> 4000"
    "k < length (queue player) \<longrightarrow>
         4000 < length (concat (take (Suc k) (playlistLines str 0 (queue player))))"
    "k < length (queue player) \<longrightarrow> suffix ''...'' (playlistMessage str (queue player))"
    "length (playlistMessage str (queue player)) \<le> 4003"
    by blast
  then show ?thesis
    unfolding d using g gp pl by (intro exI [of _ g] exI [of _ "queue player"] exI [of _ k]) simp
qed

theorem ListPlaylist_description_bounded_witness:
  "ListPlaylist longName exSession exInteraction (exHandler (NewGuildPlayer\<lparr>queue := [exSong, exSong]\<rparr>))
     = Done (exHandler (NewGuildPlayer\<lparr>queue := [exSong, exSong]\<rparr>))
        [OnPlayer ''g'' CallGetPlaylist,
         RespondEmbed (PlaylistEmbed (playlistMessage longName [exSong, exSong]))]
   \<and> suffix ''...'' (playlistMessage longName [exSong, exSong])
   \<and> length (playlistMessage longName [exSong, exSong]) \<le> 4003"
proof -
  let ?h = "exHandler (NewGuildPlayer\<lparr>queue := [exSong, exSong]\<rparr>)"
  let ?d = "playlistMessage longName [exSong, exSong]"
  have run: "ListPlaylist longName exSession exInteraction ?h
     = Done ?h [OnPlayer ''g'' CallGetPlaylist, RespondEmbed (PlaylistEmbed ?d)]"
    by (simp add: ListPlaylist_def exSession_def exInteraction_def exGuild_def exHandler_def
        getGuildPlayer_def GetPlaylist_def NewGuildPlayer_def)
  have q: "GetPlaylist (fst (getGuildPlayer ''g'' ?h)) = Inr [exSong, exSong]"
    by (simp add: exHandler_def getGuildPlayer_def GetPlaylist_def NewGuildPlayer_def)
  have long: "\<not> length (concat (take 2 (playlistLines longName 0 [exSong, exSong]))) \<le> 4000"
    by (simp add: playlistLine_def longName_def)
  from ListPlaylist_description_bounded [OF run, of ?d]
  obtain g playlist k where g: "State_Guild exSession (icGuildID exInteraction) = Some g"
    and pl: "GetPlaylist (fst (getGuildPlayer (gID g) ?h)) = Inr playlist"
    and k: "k \<le> length playlist"
    and fit: "length (concat (take k (playlistLines longName 0 playlist))) \<le> 4000"
    and dots: "k < length playlist \<longrightarrow> suffix ''...'' ?d"
    and bound: "length ?d \<le> 4003"
    by auto
  from g have "g = exGuild"
    by (simp add: exSession_def exInteraction_def)
  with pl q have playlist: "playlist = [exSong, exSong]"
    by (simp add: exGuild_def)
  have "k \<noteq> 2"
    using fit long unfolding playlist by blast
  with k have "k < length playlist"
    unfolding playlist by simp
  with dots bound run show ?thesis
    by blast
qed

section \<open>Removing a song by its position\<close>

lemma RemoveSong_in_range:
  assumes "1 \<le> position" and "position \<le> int (length (queue p))"
  shows "\<exists>p'. RemoveSong position p = (Inr (queue p ! nat (position - 1)), p')
     \<and> length (queue p') + 1 = length (queue p)
     \<and> (\<forall>i. i < nat (position - 1) \<longrightarrow> queue p' ! i = queue p ! i)
     \<and> (\<forall>i. nat (position - 1) \<le> i \<and> i < length (queue p') \<longrightarrow> queue p' ! i = queue p ! (i + 1))
     \<and> playing p' = playing p \<and> state p' = state p"
proof -
  let ?i = "nat (position - 1)"
  let ?p' = "p\<lparr>queue := take ?i (queue p) @ drop (Suc ?i) (queue p)\<rparr>"
  have i: "?i < length (queue p)" using assms by auto
  have r: "RemoveSong position p = (Inr (queue p ! ?i), ?p')"
    using assms by (simp add: RemoveSong_def Let_def)
  have len: "length (queue ?p') + 1 = length (queue p)"
    using i by simp
  have before: "queue ?p' ! j = queue p ! j" if "j < ?i" for j
    using that i by (simp add: nth_append)
  have after: "queue ?p' ! j = queue p ! (j + 1)" if "?i \<le> j" "j < length (queue ?p')" for j
    using that i by (simp add: nth_append min_def)
  show ?thesis
    using r len before after by (intro exI [of _ ?p']) simp
qed

text \<open>
  C1. \<open>RemoveSong(p)\<close> with \<open>1 \<le> p \<le> len(pending)\<close> returns the \<open>p\<close>-th pending song and
  removes exactly that entry: the queue is one shorter, the entries before it stay where
  they were and every later entry moves down by one. For every other \<open>p\<close> it returns
  \<open>ErrRemoveInvalidPosition\<close> and the player is the same as before. The song that is
  streaming and the state of the player are the same in both cases. The handler answers
  with the removed song, or with the message of the invalid position.
\<close>

theorem RemoveSong_position:
  "(1 \<le> position \<and> position \<le> int (length (queue p)) \<longrightarrow>
      (\<exists>p'. RemoveSong position p = (Inr (queue p ! nat (position - 1)), p')
        \<and> length (queue p') + 1 = length (queue p)
        \<and> (\<forall>i. i < nat (position - 1) \<longrightarrow> queue p' ! i = queue p ! i)
        \<and> (\<forall>i. nat (position - 1) \<le> i \<and> i < length (queue p') \<longrightarrow> queue p' ! i = queue p ! (i + 1))
        \<and> playing p' = playing p \<and> state p' = state p))
   \<and> (position < 1 \<or> int (length (queue p)) < position \<longrightarrow>
        RemoveSong position p = (Inl ErrRemoveInvalidPosition, p))
   \<and> (State_Guild s (icGuildID ic) = Some g
        \<and> IntValue (optionMap opt ''position'') = Some position
        \<and> getGuildPlayer (gID g) h = (p, h1) \<longrightarrow>
        RemoveSongHandler s ic opt h =
          Done (setPlayer (gID g) (snd (RemoveSong position p)) h1)
            [OnPlayer (gID g) (CallRemoveSong position),
             Respond (if 1 \<le> position \<and> position \<le> int (length (queue p))
                      then MsgRemoved (queue p ! nat (position - 1)) else MsgInvalidPosition)])"
proof (intro conjI impI)
  assume "1 \<le> position \<and> position \<le> int (length (queue p))"
  then show "\<exists>p'. RemoveSong position p = (Inr (queue p ! nat (position - 1)), p')
        \<and> length (queue p') + 1 = length (queue p)
        \<and> (\<forall>i. i < nat (position - 1) \<longrightarrow> queue p' ! i = queue p ! i)
        \<and> (\<forall>i. nat (position - 1) \<le> i \<and> i < length (queue p') \<longrightarrow> queue p' ! i = queue p ! (i + 1))
        \<and> playing p' = playing p \<and> state p' = state p"
    using RemoveSong_in_range [of position p] by simp
next
  assume "position < 1 \<or> int (length (queue p)) < position"
  then show "RemoveSong position p = (Inl ErrRemoveInvalidPosition, p)"
    by (auto simp: RemoveSong_def)
next
  assume a: "State_Guild s (icGuildID ic) = Some g
        \<and> IntValue (optionMap opt ''position'') = Some position
        \<and> getGuildPlayer (gID g) h = (p, h1)"
  then have gp: "getGuildPlayer (gID g) h = (p, h1)"
    by simp
  show "RemoveSongHandler s ic opt h =
          Done (setPlayer (gID g) (snd (RemoveSong position p)) h1)
            [OnPlayer (gID g) (CallRemoveSong position),
             Respond (if 1 \<le> position \<and> position \<le> int (length (queue p))
                      then MsgRemoved (queue p ! nat (position - 1)) else MsgInvalidPosition)]"
    using a gp by (simp add: RemoveSongHandler_def RemoveSong_def Let_def)
qed

theorem RemoveSong_position_witness:
  "RemoveSong 1 (NewGuildPlayer\<lparr>state := Playing, queue := [exTitled ''B'', exTitled ''C''], playing := Some (exTitled ''A'')\<rparr>)
     = (Inr (exTitled ''B''),
        NewGuildPlayer\<lparr>state := Playing, queue := [exTitled ''C''], playing := Some (exTitled ''A'')\<rparr>)
   \<and> RemoveSong 3 (NewGuildPlayer\<lparr>state := Playing, queue := [exTitled ''B'', exTitled ''C''], playing := Some (exTitled ''A'')\<rparr>)
     = (Inl ErrRemoveInvalidPosition,
        NewGuildPlayer\<lparr>state := Playing, queue := [exTitled ''B'', exTitled ''C''], playing := Some (exTitled ''A'')\<rparr>)
   \<and> RemoveSong 0 (NewGuildPlayer\<lparr>state := Playing, queue := [exTitled ''B'', exTitled ''C''], playing := Some (exTitled ''A'')\<rparr>)
     = (Inl ErrRemoveInvalidPosition,
        NewGuildPlayer\<lparr>state := Playing, queue := [exTitled ''B'', exTitled ''C''], playing := Some (exTitled ''A'')\<rparr>)
   \<and> RemoveSongHandler exSession exInteraction [(''position'', IntegerOption 1)]
        (exHandler (NewGuildPlayer\<lparr>state := Playing, queue := [exTitled ''B'', exTitled ''C''], playing := Some (exTitled ''A'')\<rparr>))
     = Done (exHandler (NewGuildPlayer\<lparr>state := Playing, queue := [exTitled ''C''], playing := Some (exTitled ''A'')\<rparr>))
         [OnPlayer ''g'' (CallRemoveSong 1), Respond (MsgRemoved (exTitled ''B''))]"
proof -
  let ?p = "NewGuildPlayer\<lparr>state := Playing, queue := [exTitled ''B'', exTitled ''C''], playing := Some (exTitled ''A'')\<rparr>"
  let ?p' = "NewGuildPlayer\<lparr>state := Playing, queue := [exTitled ''C''], playing := Some (exTitled ''A'')\<rparr>"
  have one: "1 \<le> (1::int) \<and> 1 \<le> int (length (queue ?p))" by simp
  have three: "(3::int) < 1 \<or> int (length (queue ?p)) < 3" by simp
  have zero: "(0::int) < 1 \<or> int (length (queue ?p)) < 0" by simp
  have snd1: "snd (RemoveSong 1 ?p) = ?p'"
    by (simp add: RemoveSong_def NewGuildPlayer_def)
  from RemoveSong_position [of 1 ?p] one
  obtain p' where "RemoveSong 1 ?p = (Inr (queue ?p ! nat (1 - 1)), p')" by blast
  with snd1 have first: "RemoveSong 1 ?p = (Inr (exTitled ''B''), ?p')"
    by simp
  have third: "RemoveSong 3 ?p = (Inl ErrRemoveInvalidPosition, ?p)"
    using RemoveSong_position [of 3 ?p] three by blast
  have zeroth: "RemoveSong 0 ?p = (Inl ErrRemoveInvalidPosition, ?p)"
    using RemoveSong_position [of 0 ?p] zero by blast
  have hyp: "State_Guild exSession (icGuildID exInteraction) = Some exGuild
      \<and> IntValue (optionMap [(''position'', IntegerOption 1)] ''position'') = Some 1
      \<and> getGuildPlayer (gID exGuild) (exHandler ?p) = (?p, exHandler ?p)"
    by (simp add: exSession_def exInteraction_def exGuild_def optionMap_def
        getGuildPlayer_def exHandler_def)
  have "RemoveSongHandler exSession exInteraction [(''position'', IntegerOption 1)] (exHandler ?p)
      = Done (setPlayer (gID exGuild) (snd (RemoveSong 1 ?p)) (exHandler ?p))
          [OnPlayer (gID exGuild) (CallRemoveSong 1),
           Respond (if 1 \<le> (1::int) \<and> 1 \<le> int (length (queue ?p))
                    then MsgRemoved (queue ?p ! nat (1 - 1)) else MsgInvalidPosition)]"
    using RemoveSong_position [of 1 ?p exSession exInteraction exGuild
        "[(''position'', IntegerOption 1)]" "exHandler ?p" "exHandler ?p"] hyp
    by blast
  then have handler: "RemoveSongHandler exSession exInteraction [(''position'', IntegerOption 1)]
        (exHandler ?p)
      = Done (exHandler ?p') [OnPlayer ''g'' (CallRemoveSong 1), Respond (MsgRemoved (exTitled ''B''))]"
    unfolding snd1 by (simp add: exGuild_def setPlayer_def exHandler_def)
  from first third zeroth handler show ?thesis
    by blast
qed

section \<open>Stopping a player\<close>

lemma Stop_first:
  assumes "state p \<noteq> Closed"
  shows "Stop p =
    (None, p\<lparr>state := Closed, queue := [], playing := None,
              cancelled := cancelled p + (if state p = Loading \<or> state p = Playing then 1 else 0),
              sessionOpen := False, sessionCloses := sessionCloses p + 1\<rparr>)"
  using assms by (simp add: Stop_def)

lemma Stop_closed: "state p = Closed \<Longrightarrow> Stop p = (None, p)"
  by (simp add: Stop_def)

lemma Stop_state: "state (snd (Stop p)) = Closed"
  by (simp add: Stop_def)

lemma Stop_again: "((\<lambda>q. snd (Stop q)) ^^ n) (snd (Stop p)) = snd (Stop p)"
proof (induction n)
  case 0
  show ?case by simp
next
  case (Suc n)
  have "Stop (snd (Stop p)) = (None, snd (Stop p))"
    by (rule Stop_closed) (rule Stop_state)
  with Suc show ?case by simp
qed

text \<open>
  C5. The first \<open>Stop()\<close> of a player (one that is not Closed yet) reports no error,
  cancels the stream in flight if there is one, empties the queue, closes the voice session
  (one more call of its \<open>Close\<close>, and the session is no longer open) and leaves the player
  Closed. Every later \<open>Stop()\<close>, however many there are, reports no error and changes
  nothing: the session has been closed once. The handler \<open>StopPlaying\<close> answers both the
  first and a later call with the message that playback has stopped.
\<close>

theorem Stop_once:
  "fst (Stop p) = None
   \<and> (state p \<noteq> Closed \<longrightarrow>
      state (snd (Stop p)) = Closed
    \<and> queue (snd (Stop p)) = []
    \<and> playing (snd (Stop p)) = None
    \<and> \<not> sessionOpen (snd (Stop p))
    \<and> sessionCloses (snd (Stop p)) = sessionCloses p + 1
    \<and> cancelled (snd (Stop p)) =
        cancelled p + (if state p = Loading \<or> state p = Playing then 1 else 0))
   \<and> Stop (snd (Stop p)) = (None, snd (Stop p))
   \<and> ((\<lambda>q. snd (Stop q)) ^^ n) (snd (Stop p)) = snd (Stop p)
   \<and> (State_Guild s (icGuildID ic) = Some g \<and> getGuildPlayer (gID g) h = (p, h1) \<longrightarrow>
        StopPlaying s ic h =
          Done (setPlayer (gID g) (snd (Stop p)) h1) [OnPlayer (gID g) CallStop, Respond MsgStopped]
      \<and> StopPlaying s ic (setPlayer (gID g) (snd (Stop p)) h1) =
          Done (setPlayer (gID g) (snd (Stop p)) h1) [OnPlayer (gID g) CallStop, Respond MsgStopped])"
proof (intro conjI impI)
  show "fst (Stop p) = None"
    by (simp add: Stop_def)
next
  assume notClosed: "state p \<noteq> Closed"
  note first = Stop_first [OF notClosed]
  show "state (snd (Stop p)) = Closed" "queue (snd (Stop p)) = []"
    "playing (snd (Stop p)) = None" "\<not> sessionOpen (snd (Stop p))"
    "sessionCloses (snd (Stop p)) = sessionCloses p + 1"
    "cancelled (snd (Stop p)) =
        cancelled p + (if state p = Loading \<or> state p = Playing then 1 else 0)"
    unfolding first by simp_all
next
  show "Stop (snd (Stop p)) = (None, snd (Stop p))"
    by (rule Stop_closed) (rule Stop_state)
next
  show "((\<lambda>q. snd (Stop q)) ^^ n) (snd (Stop p)) = snd (Stop p)"
    by (rule Stop_again)
next
  assume a: "State_Guild s (icGuildID ic) = Some g \<and> getGuildPlayer (gID g) h = (p, h1)"
  define p' where "p' = snd (Stop p)"
  have "fst (Stop p) = None"
    by (simp add: Stop_def)
  then have ok: "Stop p = (None, p')"
    unfolding p'_def by (simp add: prod_eq_iff)
  then have p': "snd (Stop p) = p'"
    by simp
  show "StopPlaying s ic h =
      Done (setPlayer (gID g) (snd (Stop p)) h1) [OnPlayer (gID g) CallStop, Respond MsgStopped]"
    unfolding p' using a by (simp add: StopPlaying_def ok)
next
  assume a: "State_Guild s (icGuildID ic) = Some g \<and> getGuildPlayer (gID g) h = (p, h1)"
  let ?h2 = "setPlayer (gID g) (snd (Stop p)) h1"
  have gp: "getGuildPlayer (gID g) ?h2 = (snd (Stop p), ?h2)"
    by (simp add: getGuildPlayer_def setPlayer_def)
  define p' where "p' = snd (Stop p)"
  have again: "Stop p' = (None, p')"
    unfolding p'_def by (rule Stop_closed) (rule Stop_state)
  have same: "setPlayer (gID g) p' (setPlayer (gID g) p' h1) = setPlayer (gID g) p' h1"
    by (simp add: setPlayer_def)
  have "StopPlaying s ic (setPlayer (gID g) p' h1) =
      Done (setPlayer (gID g) p' h1) [OnPlayer (gID g) CallStop, Respond MsgStopped]"
    using a gp by (simp add: StopPlaying_def again same p'_def [symmetric])
  then show "StopPlaying s ic ?h2 = Done ?h2 [OnPlayer (gID g) CallStop, Respond MsgStopped]"
    unfolding p'_def .
qed

theorem Stop_once_witness:
  "Stop exPlaying = (None, exStopped)
   \<and> Stop exStopped = (None, exStopped)
   \<and> StopPlaying exSession exInteraction (exHandler exPlaying) =
       Done (exHandler exStopped) [OnPlayer ''g'' CallStop, Respond MsgStopped]
   \<and> StopPlaying exSession exInteraction (exHandler exStopped) =
       Done (exHandler exStopped) [OnPlayer ''g'' CallStop, Respond MsgStopped]"
proof -
  have notClosed: "state exPlaying \<noteq> Closed"
    by (simp add: exPlaying_def)
  have hyp: "State_Guild exSession (icGuildID exInteraction) = Some exGuild
      \<and> getGuildPlayer (gID exGuild) (exHandler exPlaying) = (exPlaying, exHandler exPlaying)"
    by (simp add: exSession_def exInteraction_def exGuild_def getGuildPlayer_def exHandler_def)
  note inst = Stop_once [of exPlaying 1 exSession exInteraction exGuild
      "exHandler exPlaying" "exHandler exPlaying"]
  have fields: "fst (Stop exPlaying) = None" "state (snd (Stop exPlaying)) = Closed"
    "queue (snd (Stop exPlaying)) = []" "playing (snd (Stop exPlaying)) = None"
    "\<not> sessionOpen (snd (Stop exPlaying))"
    "sessionCloses (snd (Stop exPlaying)) = sessionCloses exPlaying + 1"
    "cancelled (snd (Stop exPlaying)) =
       cancelled exPlaying
         + (if state exPlaying = Loading \<or> state exPlaying = Playing then 1 else 0)"
    using inst notClosed by blast+
  have "textDest (snd (Stop exPlaying)) = None" "voiceDest (snd (Stop exPlaying)) = None"
    by (simp_all add: Stop_def exPlaying_def NewGuildPlayer_def)
  with fields have stopped: "snd (Stop exPlaying) = exStopped"
    by (simp add: exStopped_def exPlaying_def NewGuildPlayer_def)
  with fields(1) have first: "Stop exPlaying = (None, exStopped)"
    by (simp add: prod_eq_iff)
  have again: "Stop exStopped = (None, exStopped)"
    using inst unfolding stopped by blast
  have upd: "setPlayer (gID exGuild) exStopped (exHandler exPlaying) = exHandler exStopped"
    by (simp add: setPlayer_def exHandler_def exGuild_def)
  have "StopPlaying exSession exInteraction (exHandler exPlaying) =
          Done (setPlayer (gID exGuild) exStopped (exHandler exPlaying))
            [OnPlayer (gID exGuild) CallStop, Respond MsgStopped]
      \<and> StopPlaying exSession exInteraction (setPlayer (gID exGuild) exStopped (exHandler exPlaying)) =
          Done (setPlayer (gID exGuild) exStopped (exHandler exPlaying))
            [OnPlayer (gID exGuild) CallStop, Respond MsgStopped]"
    using inst hyp unfolding stopped by blast
  then have "StopPlaying exSession exInteraction (exHandler exPlaying) =
          Done (exHandler exStopped) [OnPlayer ''g'' CallStop, Respond MsgStopped]
      \<and> StopPlaying exSession exInteraction (exHandler exStopped) =
          Done (exHandler exStopped) [OnPlayer ''g'' CallStop, Respond MsgStopped]"
    unfolding upd by (simp add: exGuild_def)
  with first again show ?thesis
    by blast
qed

section \<open>The order of the playlist\<close>

text \<open>Every step of a player keeps the invariant \<open>fifo\<close>.\<close>


lemma addedSongs_snoc:
  "addedSongs (evs @ [ev]) =
     addedSongs evs @ (case ev of EvAddSong td vd song \<Rightarrow> [song] | _ \<Rightarrow> [])"
  by (induction evs rule: addedSongs.induct) (auto split: PlayerEvent.splits)

lemma fifo_AddSong:
  assumes "fifo added p"
  shows "fifo (added @ [song]) (snd (AddSong td vd song p))"
proof -
  from assms obtain k where k: "k \<le> length added" "queue p = drop k added"
    and slot: "case playing p of None \<Rightarrow> True | Some s \<Rightarrow> 0 < k \<and> s = added ! (k - 1)"
    and st: "state p \<noteq> Closed"
    unfolding fifo_def by blast
  have "queue (snd (AddSong td vd song p)) = drop k (added @ [song])"
    using k st by (simp add: AddSong_def)
  moreover have "case playing (snd (AddSong td vd song p)) of None \<Rightarrow> True
      | Some s \<Rightarrow> 0 < k \<and> s = (added @ [song]) ! (k - 1)"
    using slot k st by (auto simp: AddSong_def nth_append split: option.splits)
  moreover have "state (snd (AddSong td vd song p)) \<noteq> Closed"
    using st by (simp add: AddSong_def)
  ultimately show ?thesis
    unfolding fifo_def using k(1) by (intro conjI exI [of _ k]) simp_all
qed

lemma fifo_startNext:
  assumes "fifo added p"
  shows "fifo added (startNext p)"
proof (cases "queue p")
  case Nil
  with assms show ?thesis by (simp add: startNext_def)
next
  case (Cons song rest)
  show ?thesis
  proof (cases "state p = Idle")
    case False
    with assms Cons show ?thesis by (simp add: startNext_def)
  next
    case True
    from assms obtain k where k: "k \<le> length added" "queue p = drop k added"
      unfolding fifo_def by blast
    with Cons have lt: "k < length added" by (cases "k = length added") auto
    with k Cons have "song = added ! k" "rest = drop (Suc k) added"
      by (simp_all add: Cons_nth_drop_Suc [symmetric])
    then show ?thesis
      unfolding fifo_def using lt True Cons
      by (intro conjI exI [of _ "Suc k"]) (simp_all add: startNext_def)
  qed
qed

lemma fifo_step:
  assumes "fifo added p"
  shows "fifo (added @ (case ev of EvAddSong td vd song \<Rightarrow> [song] | _ \<Rightarrow> [])) (playerStep ev p)"
proof (cases ev)
  case (EvAddSong td vd song)
  with fifo_AddSong [OF assms] show ?thesis by simp
next
  case EvSkipSong
  with assms show ?thesis by (auto simp: fifo_def SkipSong_def)
next
  case EvStartNext
  with fifo_startNext [OF assms] show ?thesis by simp
next
  case EvFramesBegin
  with assms show ?thesis by (auto simp: fifo_def framesBegin_def)
next
  case EvSongEnds
  with assms show ?thesis by (auto simp: fifo_def songEnds_def)
qed

lemma fifo_run: "fifo (addedSongs evs) (runPlayer evs NewGuildPlayer)"
proof (induction evs rule: rev_induct)
  case Nil
  show ?case by (simp add: fifo_def runPlayer_def NewGuildPlayer_def)
next
  case (snoc ev evs)
  have "runPlayer (evs @ [ev]) NewGuildPlayer = playerStep ev (runPlayer evs NewGuildPlayer)"
    by (simp add: runPlayer_def)
  with fifo_step [OF snoc, of ev] show ?case
    by (simp add: addedSongs_snoc)
qed

lemma only_added:
  assumes "EvStartNext \<notin> set evs"
  shows "state (runPlayer evs NewGuildPlayer) = Idle
    \<and> playing (runPlayer evs NewGuildPlayer) = None
    \<and> queue (runPlayer evs NewGuildPlayer) = addedSongs evs"
  using assms
proof (induction evs rule: rev_induct)
  case Nil
  show ?case by (simp add: runPlayer_def NewGuildPlayer_def)
next
  case (snoc ev evs)
  then have ih: "state (runPlayer evs NewGuildPlayer) = Idle"
    "playing (runPlayer evs NewGuildPlayer) = None"
    "queue (runPlayer evs NewGuildPlayer) = addedSongs evs"
    and ev: "ev \<noteq> EvStartNext"
    by auto
  have run: "runPlayer (evs @ [ev]) NewGuildPlayer = playerStep ev (runPlayer evs NewGuildPlayer)"
    by (simp add: runPlayer_def)
  show ?case
    unfolding run addedSongs_snoc using ih ev
    by (cases ev) (simp_all add: AddSong_def SkipSong_def framesBegin_def songEnds_def)
qed

text \<open>
  C2. After any sequence of \<open>AddSong\<close> calls on a new player, interleaved in any way with
  the steps of the player's control path and with skips, \<open>GetPlaylist()\<close> returns the added
  songs in the order of their insertion, without the first \<open>k\<close> of them, which were
  dequeued to be streamed. The song that is streaming, if any, is the last one dequeued,
  number \<open>k\<close> of the added songs, which is not part of the snapshot: when no song was
  added twice, it does not occur in it. As long as the control path has started no song,
  the snapshot is the whole list of added songs.
\<close>

theorem GetPlaylist_insertion_order:
  "\<exists>k\<le>length (addedSongs evs).
      GetPlaylist (runPlayer evs NewGuildPlayer) = Inr (drop k (addedSongs evs))
    \<and> (\<forall>song. GetPlayedSong (runPlayer evs NewGuildPlayer) = Inr (Some song) \<longrightarrow>
          0 < k \<and> song = addedSongs evs ! (k - 1)
          \<and> (distinct (addedSongs evs) \<longrightarrow> song \<notin> set (drop k (addedSongs evs))))
    \<and> (EvStartNext \<notin> set evs \<longrightarrow> k = 0)"
proof -
  let ?p = "runPlayer evs NewGuildPlayer"
  let ?added = "addedSongs evs"
  from fifo_run [of evs] obtain k where k: "k \<le> length ?added" "queue ?p = drop k ?added"
    and slot: "case playing ?p of None \<Rightarrow> True | Some song \<Rightarrow> 0 < k \<and> song = ?added ! (k - 1)"
    unfolding fifo_def by blast
  have streaming: "0 < k \<and> song = ?added ! (k - 1)
      \<and> (distinct ?added \<longrightarrow> song \<notin> set (drop k ?added))"
    if "GetPlayedSong ?p = Inr (Some song)" for song
  proof -
    from that slot have pos: "0 < k" and song: "song = ?added ! (k - 1)"
      by (simp_all add: GetPlayedSong_def)
    have "song \<notin> set (drop k ?added)" if d: "distinct ?added"
    proof
      assume "song \<in> set (drop k ?added)"
      then obtain i where i: "i < length (drop k ?added)" "drop k ?added ! i = song"
        by (auto simp: in_set_conv_nth)
      then have "?added ! (k + i) = ?added ! (k - 1)" "k + i < length ?added"
        using song k by auto
      with d pos k have "k + i = k - 1"
        by (simp add: nth_eq_iff_index_eq)
      with pos show False by simp
    qed
    with pos song show ?thesis by blast
  qed
  have none: "k = 0" if "EvStartNext \<notin> set evs"
  proof -
    from only_added [OF that] have "queue ?p = ?added" by simp
    with k have "length (drop k ?added) = length ?added" by simp
    with k show ?thesis by simp
  qed
  have "GetPlaylist ?p = Inr (drop k ?added)"
    using k by (simp add: GetPlaylist_def)
  with k(1) streaming none show ?thesis
    by blast
qed

theorem GetPlaylist_insertion_order_witness:
  "GetPlaylist (runPlayer [EvAddSong ''t'' ''v'' (exTitled ''A''), EvAddSong ''t'' ''v'' (exTitled ''B''),
        EvStartNext, EvFramesBegin, EvAddSong ''t'' ''v'' (exTitled ''C'')] NewGuildPlayer)
     = Inr [exTitled ''B'', exTitled ''C'']
   \<and> GetPlayedSong (runPlayer [EvAddSong ''t'' ''v'' (exTitled ''A''), EvAddSong ''t'' ''v'' (exTitled ''B''),
        EvStartNext, EvFramesBegin, EvAddSong ''t'' ''v'' (exTitled ''C'')] NewGuildPlayer)
     = Inr (Some (exTitled ''A''))
   \<and> exTitled ''A'' \<notin> set [exTitled ''B'', exTitled ''C'']
   \<and> GetPlaylist (runPlayer [EvAddSong ''t'' ''v'' (exTitled ''A''), EvAddSong ''t'' ''v'' (exTitled ''B'')]
        NewGuildPlayer)
     = Inr [exTitled ''A'', exTitled ''B'']"
proof -
  let ?evs = "[EvAddSong ''t'' ''v'' (exTitled ''A''), EvAddSong ''t'' ''v'' (exTitled ''B''),
        EvStartNext, EvFramesBegin, EvAddSong ''t'' ''v'' (exTitled ''C'')]"
  let ?two = "[EvAddSong ''t'' ''v'' (exTitled ''A''), EvAddSong ''t'' ''v'' (exTitled ''B'')]"
  have added: "addedSongs ?evs = [exTitled ''A'', exTitled ''B'', exTitled ''C'']"
    by simp
  have dist: "distinct (addedSongs ?evs)"
    by (simp add: exTitled_def exSong_def)
  have slot: "GetPlayedSong (runPlayer ?evs NewGuildPlayer) = Inr (Some (exTitled ''A''))"
    by (simp add: runPlayer_def GetPlayedSong_def AddSong_def startNext_def framesBegin_def
        NewGuildPlayer_def)
  from GetPlaylist_insertion_order [of ?evs] obtain k where k: "k \<le> length (addedSongs ?evs)"
    and pl: "GetPlaylist (runPlayer ?evs NewGuildPlayer) = Inr (drop k (addedSongs ?evs))"
    and st: "\<forall>song. GetPlayedSong (runPlayer ?evs NewGuildPlayer) = Inr (Some song) \<longrightarrow>
          0 < k \<and> song = addedSongs ?evs ! (k - 1)
          \<and> (distinct (addedSongs ?evs) \<longrightarrow> song \<notin> set (drop k (addedSongs ?evs)))"
    by blast
  from st slot dist have pos: "0 < k" and a: "exTitled ''A'' = addedSongs ?evs ! (k - 1)"
    and notin: "exTitled ''A'' \<notin> set (drop k (addedSongs ?evs))"
    by blast+
  from k pos have "k = 1 \<or> k = 2 \<or> k = 3"
    unfolding added by auto
  with a have k1: "k = 1"
    unfolding added by (auto simp: exTitled_def exSong_def)
  have first: "GetPlaylist (runPlayer ?evs NewGuildPlayer) = Inr [exTitled ''B'', exTitled ''C'']"
    using pl unfolding k1 added by simp
  have third: "exTitled ''A'' \<notin> set [exTitled ''B'', exTitled ''C'']"
    using notin unfolding k1 added by simp
  have "EvStartNext \<notin> set ?two"
    by simp
  with GetPlaylist_insertion_order [of ?two] obtain j where
    "GetPlaylist (runPlayer ?two NewGuildPlayer) = Inr (drop j (addedSongs ?two))" "j = 0"
    by blast
  then have fourth: "GetPlaylist (runPlayer ?two NewGuildPlayer) = Inr [exTitled ''A'', exTitled ''B'']"
    by simp
  from first slot third fourth show ?thesis
    by blast
qed

section \<open>The registry of players and the storage under the handlers\<close>

lemma getGuildPlayer_storage [simp]:
  "storage (snd (getGuildPlayer guildID h)) = storage h"
  "songLookuper (snd (getGuildPlayer guildID h)) = songLookuper h"
  by (simp_all add: getGuildPlayer_def Let_def split: option.splits)

lemma getGuildPlayer_players:
  "guildsPlayers (snd (getGuildPlayer guildID h)) =
     (guildsPlayers h)(guildID \<mapsto> fst (getGuildPlayer guildID h))"
  by (auto simp: getGuildPlayer_def Let_def split: option.splits)

lemma getGuildPlayer_fst:
  "fst (getGuildPlayer guildID h) =
     (case guildsPlayers h guildID of None \<Rightarrow> NewGuildPlayer | Some player \<Rightarrow> player)"
  by (simp add: getGuildPlayer_def setupGuildPlayer_def Let_def split: option.splits)

lemma setPlayer_fields [simp]:
  "storage (setPlayer guildID player h) = storage h"
  "songLookuper (setPlayer guildID player h) = songLookuper h"
  "guildsPlayers (setPlayer guildID player h) = (guildsPlayers h)(guildID \<mapsto> player)"
  by (simp_all add: setPlayer_def)

lemma no_voice_state:
  "getUsersVoiceState g userID = None \<longleftrightarrow> (\<forall>vs\<in>set (gVoiceStates g). vsUserID vs \<noteq> userID)"
  by (auto simp: getUsersVoiceState_def find_None_iff)

lemma checkGuild_dom: "dom (guildsPlayers (fst (checkGuild occ guildID h))) = dom (guildsPlayers h)"
  by (auto simp: checkGuild_def case_prod_beta split: option.splits)

lemma presenceTick_dom: "dom (guildsPlayers (fst (presenceTick occ ks h))) = dom (guildsPlayers h)"
proof (induction ks arbitrary: h)
  case Nil
  show ?case by simp
next
  case (Cons k ks)
  have "dom (guildsPlayers (fst (presenceTick occ ks (fst (checkGuild occ k h)))))
      = dom (guildsPlayers (fst (checkGuild occ k h)))"
    by (rule Cons.IH)
  then show ?case
    by (simp add: case_prod_beta checkGuild_dom)
qed

lemma monitor_dom:
  "dom (guildsPlayers (fst (snd (CheckVoiceChannelsPresence evs h)))) = dom (guildsPlayers h)"
proof (induction evs arbitrary: h)
  case Nil
  show ?case by simp
next
  case (Cons ev evs)
  show ?case
  proof (cases ev)
    case (TickerC occ ks)
    with Cons [of "fst (presenceTick occ ks h)"] show ?thesis
      by (simp add: case_prod_beta presenceTick_dom)
  next
    case CtxDone
    then show ?thesis by simp
  qed
qed

text \<open>
  C10. When the guild of the interaction is known, the command carries its \<open>input\<close> and
  the requesting user has no voice state in the guild, \<open>PlaySong\<close> answers with the message
  that the user is in no voice channel and does nothing else: it looks no song up, calls no
  method of a player and saves no song list. Every player is as it was; the one thing that
  may be new is the guild's player itself, which \<open>getGuildPlayer\<close> sets up, idle and with an
  empty queue, when the guild had none.
\<close>

theorem PlaySong_not_in_voice_channel:
  assumes "State_Guild s (icGuildID ic) = Some g"
    and "StringValue (optionMap opt ''input'') = Some input"
    and "\<forall>vs\<in>set (gVoiceStates g). vsUserID vs \<noteq> icUserID ic"
  shows "\<exists>h'. PlaySong s ic opt h = Done h' [Respond ErrorMessageNotInVoiceChannel]
    \<and> storage h' = storage h
    \<and> songLookuper h' = songLookuper h
    \<and> (\<forall>guildID player. guildsPlayers h guildID = Some player \<longrightarrow>
          guildsPlayers h' guildID = Some player)
    \<and> (\<forall>guildID. guildID \<noteq> gID g \<longrightarrow> guildsPlayers h' guildID = guildsPlayers h guildID)
    \<and> (guildsPlayers h (gID g) = None \<longrightarrow> guildsPlayers h' (gID g) = Some NewGuildPlayer)"
proof -
  obtain player h1 where gp: "getGuildPlayer (gID g) h = (player, h1)"
    by (cases "getGuildPlayer (gID g) h")
  have vs: "getUsersVoiceState g (icUserID ic) = None"
    using assms(3) by (simp add: no_voice_state)
  have run: "PlaySong s ic opt h = Done h1 [Respond ErrorMessageNotInVoiceChannel]"
    using assms(1,2) gp vs by (simp add: PlaySong_def)
  have h1: "h1 = snd (getGuildPlayer (gID g) h)" and player: "player = fst (getGuildPlayer (gID g) h)"
    using gp by simp_all
  have players: "guildsPlayers h1 = (guildsPlayers h)(gID g \<mapsto> player)"
    unfolding h1 player by (rule getGuildPlayer_players)
  have st: "storage h1 = storage h" and lk: "songLookuper h1 = songLookuper h"
    unfolding h1 by simp_all
  have kept: "guildsPlayers h1 guildID = Some q" if "guildsPlayers h guildID = Some q" for guildID q
    using that unfolding players player by (auto simp: getGuildPlayer_fst)
  have others: "guildsPlayers h1 guildID = guildsPlayers h guildID" if "guildID \<noteq> gID g" for guildID
    using that unfolding players by simp
  have fresh: "guildsPlayers h1 (gID g) = Some NewGuildPlayer" if "guildsPlayers h (gID g) = None"
    using that unfolding players player by (simp add: getGuildPlayer_fst)
  show ?thesis
  proof (intro exI [of _ h1] conjI allI impI)
    show "PlaySong s ic opt h = Done h1 [Respond ErrorMessageNotInVoiceChannel]" by (rule run)
    show "storage h1 = storage h" by (rule st)
    show "songLookuper h1 = songLookuper h" by (rule lk)
    show "guildsPlayers h1 guildID = Some q" if "guildsPlayers h guildID = Some q" for guildID q
      using that by (rule kept)
    show "guildsPlayers h1 guildID = guildsPlayers h guildID" if "guildID \<noteq> gID g" for guildID
      using that by (rule others)
    show "guildsPlayers h1 (gID g) = Some NewGuildPlayer" if "guildsPlayers h (gID g) = None"
      using that by (rule fresh)
  qed
qed

theorem PlaySong_not_in_voice_channel_witness:
  "PlaySong exSession exInteraction [(''input'', StringOption ''a song'')] (exHandler exPlaying)
     = Done (exHandler exPlaying) [Respond ErrorMessageNotInVoiceChannel]"
proof -
  have g: "State_Guild exSession (icGuildID exInteraction) = Some exGuild"
    by (simp add: exSession_def exInteraction_def)
  have input: "StringValue (optionMap [(''input'', StringOption ''a song'')] ''input'') = Some ''a song''"
    by (simp add: optionMap_def)
  have nobody: "\<forall>vs\<in>set (gVoiceStates exGuild). vsUserID vs \<noteq> icUserID exInteraction"
    by (simp add: exGuild_def)
  from PlaySong_not_in_voice_channel [OF g input nobody, of "exHandler exPlaying"]
  obtain h' where run: "PlaySong exSession exInteraction [(''input'', StringOption ''a song'')]
        (exHandler exPlaying) = Done h' [Respond ErrorMessageNotInVoiceChannel]"
    and st: "storage h' = storage (exHandler exPlaying)"
    and lk: "songLookuper h' = songLookuper (exHandler exPlaying)"
    and same: "\<forall>guildID player. guildsPlayers (exHandler exPlaying) guildID = Some player \<longrightarrow>
          guildsPlayers h' guildID = Some player"
    and others: "\<forall>guildID. guildID \<noteq> gID exGuild \<longrightarrow>
          guildsPlayers h' guildID = guildsPlayers (exHandler exPlaying) guildID"
    by blast
  have "guildsPlayers h' guildID = guildsPlayers (exHandler exPlaying) guildID" for guildID
  proof (cases "guildID = gID exGuild")
    case True
    then have "guildsPlayers (exHandler exPlaying) guildID = Some exPlaying"
      by (simp add: exHandler_def exGuild_def)
    with same show ?thesis by simp
  next
    case False
    with others show ?thesis by simp
  qed
  then have "guildsPlayers h' = guildsPlayers (exHandler exPlaying)"
    by (rule ext)
  with st lk have "h' = exHandler exPlaying"
    by (intro Handler.equality) simp_all
  with run show ?thesis
    by simp
qed

section \<open>A saved song list is consumed once\<close>

lemma GuildCreate_storage:
  "GuildCreate g h = Done h' effs \<Longrightarrow> storage h' = storage h"
  by (auto simp: GuildCreate_def split: if_splits)

lemma GuildDelete_storage:
  "GuildDelete g h = Done h' effs \<Longrightarrow> storage h' = storage h"
  by (auto simp: GuildDelete_def Let_def case_prod_beta)

lemma StopPlaying_storage:
  "StopPlaying s ic h = Done h' effs \<Longrightarrow> storage h' = storage h"
  by (auto simp: StopPlaying_def Let_def case_prod_beta split: option.splits)

lemma SkipSongHandler_storage:
  "SkipSongHandler s ic h = Done h' effs \<Longrightarrow> storage h' = storage h"
  by (auto simp: SkipSongHandler_def Let_def case_prod_beta split: option.splits)

lemma ListPlaylist_storage:
  "ListPlaylist str s ic h = Done h' effs \<Longrightarrow> storage h' = storage h"
  by (auto simp: ListPlaylist_def Let_def case_prod_beta split: option.splits sum.splits if_splits)

lemma RemoveSongHandler_storage:
  "RemoveSongHandler s ic opt h = Done h' effs \<Longrightarrow> storage h' = storage h"
  by (auto simp: RemoveSongHandler_def Let_def case_prod_beta
      split: option.splits sum.splits if_splits)

lemma GetPlayingSong_storage:
  "GetPlayingSong s ic h = Done h' effs \<Longrightarrow> storage h' = storage h"
  by (auto simp: GetPlayingSong_def Let_def case_prod_beta split: option.splits sum.splits)

lemma PlaySong_storage:
  "PlaySong s ic opt h = Done h' effs \<Longrightarrow> storage h' = storage h"
  by (auto simp: PlaySong_def Let_def case_prod_beta split: option.splits)

lemma writeCaptured_storage [simp]:
  "storage (writeCaptured cap guildID player h) = storage h"
  by (simp add: writeCaptured_def split: Captured.splits option.splits)

lemma playSongLookup_storage:
  assumes "playSongLookup ic vs input guildID cap h = Done h' effs"
  shows "storage h' = storage h
    \<or> (\<exists>songs. storage h' = SaveSongList (icChannelID ic) songs (storage h)
          \<and> (\<forall>song\<in>set songs. RequestedBy song = Some (icMemberName ic)))"
proof (cases "songLookuper h input")
  case (Inl err)
  with assms show ?thesis by (auto simp: playSongLookup_def)
next
  case (Inr found)
  let ?songs = "map (\<lambda>song. song\<lparr>RequestedBy := Some (icMemberName ic)\<rparr>) found"
  have all: "\<forall>song\<in>set ?songs. RequestedBy song = Some (icMemberName ic)"
    by simp
  show ?thesis
  proof (cases "storage h' = storage h")
    case True
    then show ?thesis by simp
  next
    case False
    with assms Inr have "storage h' = SaveSongList (icChannelID ic) ?songs (storage h)"
      by (auto simp: playSongLookup_def Let_def case_prod_beta split: list.splits option.splits)
    with all show ?thesis by blast
  qed
qed

lemma AddSongOrPlaylist_storage:
  assumes "AddSongOrPlaylist s ic h = Done h' effs"
  shows "storage h' = storage h \<or> storage h' = DeleteSongList (icChannelID ic) (storage h)"
  using assms
  by (auto simp: AddSongOrPlaylist_def Let_def case_prod_beta
      split: list.splits option.splits if_splits)

lemma handle_storage:
  assumes "handle str ev h = Done h' effs"
  shows "storage h' = storage h
    \<or> (\<exists>c. storage h' = DeleteSongList c (storage h))
    \<or> (\<exists>c songs. savesSongList c ev \<and> storage h' = SaveSongList c songs (storage h)
          \<and> (\<forall>song\<in>set songs. RequestedBy song \<noteq> None))"
proof (cases ev)
  case (OnGuildCreate g)
  with assms GuildCreate_storage [of g h h' effs] show ?thesis by simp
next
  case (OnGuildDelete g)
  with assms GuildDelete_storage [of g h h' effs] show ?thesis by simp
next
  case (OnPlaySong s ic opt)
  with assms PlaySong_storage [of s ic opt h h' effs] show ?thesis by simp
next
  case (OnPlaySongLookup ic vs input guildID cap)
  with assms have "playSongLookup ic vs input guildID cap h = Done h' effs"
    by simp
  from playSongLookup_storage [OF this] show ?thesis
  proof
    assume "storage h' = storage h"
    then show ?thesis by simp
  next
    assume "\<exists>songs. storage h' = SaveSongList (icChannelID ic) songs (storage h)
          \<and> (\<forall>song\<in>set songs. RequestedBy song = Some (icMemberName ic))"
    then obtain songs where "storage h' = SaveSongList (icChannelID ic) songs (storage h)"
      and "\<forall>song\<in>set songs. RequestedBy song \<noteq> None"
      by auto
    moreover have "savesSongList (icChannelID ic) ev"
      using OnPlaySongLookup by simp
    ultimately show ?thesis by blast
  qed
next
  case (OnAddSongOrPlaylist s ic)
  with assms AddSongOrPlaylist_storage [of s ic h h' effs] show ?thesis by auto
next
  case (OnStopPlaying s ic)
  with assms StopPlaying_storage [of s ic h h' effs] show ?thesis by simp
next
  case (OnSkipSong s ic)
  with assms SkipSongHandler_storage [of s ic h h' effs] show ?thesis by simp
next
  case (OnListPlaylist s ic)
  with assms ListPlaylist_storage [of str s ic h h' effs] show ?thesis by simp
next
  case (OnRemoveSong s ic opt)
  with assms RemoveSongHandler_storage [of s ic opt h h' effs] show ?thesis by simp
next
  case (OnGetPlayingSong s ic)
  with assms GetPlayingSong_storage [of s ic h h' effs] show ?thesis by simp
qed

lemma savesSongList_channel: "savesSongList c ev \<Longrightarrow> savesSongList c' ev \<Longrightarrow> c' = c"
  by (cases ev) simp_all

lemma handle_keeps_deleted:
  assumes "storage h c = None" and "\<not> savesSongList c ev" and "handle str ev h = Done h' effs"
  shows "storage h' c = None"
proof -
  from handle_storage [OF assms(3)] consider "storage h' = storage h"
    | c' where "storage h' = DeleteSongList c' (storage h)"
    | c' songs where "savesSongList c' ev" and "storage h' = SaveSongList c' songs (storage h)"
    by blast
  then show ?thesis
  proof cases
    case 1
    with assms(1) show ?thesis by simp
  next
    case 2
    with assms(1) show ?thesis by (simp add: DeleteSongList_def)
  next
    case 3
    with assms(2) have "c' \<noteq> c" by auto
    with 3 assms(1) show ?thesis by (simp add: SaveSongList_def)
  qed
qed

lemma handleAll_keeps_deleted:
  assumes "storage h c = None" and "\<forall>ev\<in>set evs. \<not> savesSongList c ev"
    and "handleAll str evs h = Some h'"
  shows "storage h' c = None"
  using assms
proof (induction evs arbitrary: h)
  case Nil
  then show ?case by simp
next
  case (Cons ev evs)
  from Cons.prems(3) obtain h1 effs where step: "handle str ev h = Done h1 effs"
    and rest: "handleAll str evs h1 = Some h'"
    by (cases "handle str ev h") auto
  from Cons.prems(1,2) step have "storage h1 c = None"
    using handle_keeps_deleted [of h c ev str h1 effs] by simp
  with Cons.IH [of h1] Cons.prems(2) rest show ?case
    by simp
qed

lemma handle_requested:
  assumes "requested h" and "handle str ev h = Done h' effs"
  shows "requested h'"
proof -
  from handle_storage [OF assms(2)] consider "storage h' = storage h"
    | c' where "storage h' = DeleteSongList c' (storage h)"
    | c' songs where "storage h' = SaveSongList c' songs (storage h)"
        and "\<forall>song\<in>set songs. RequestedBy song \<noteq> None"
    by blast
  then show ?thesis
  proof cases
    case 1
    with assms(1) show ?thesis by (simp add: requested_def)
  next
    case 2
    with assms(1) show ?thesis
      by (auto simp: requested_def DeleteSongList_def split: if_splits)
  next
    case 3
    with assms(1) show ?thesis
      by (auto simp: requested_def SaveSongList_def split: if_splits)
  qed
qed

lemma handleAll_requested:
  assumes "requested h" and "handleAll str evs h = Some h'"
  shows "requested h'"
  using assms
proof (induction evs arbitrary: h)
  case Nil
  then show ?case by simp
next
  case (Cons ev evs)
  from Cons.prems(2) obtain h1 effs where step: "handle str ev h = Done h1 effs"
    and rest: "handleAll str evs h1 = Some h'"
    by (cases "handle str ev h") auto
  from Cons.prems(1) step have "requested h1"
    by (rule handle_requested)
  with Cons.IH [of h1] rest show ?case
    by simp
qed

lemma AddSongOrPlaylist_completes:
  assumes "icValues ic \<noteq> []"
    and "State_Guild s (icGuildID ic) = Some g"
    and "GetSongList (icChannelID ic) (storage h) \<noteq> []"
    and "getUsersVoiceState g (icUserID ic) = Some vs"
    and "\<forall>song\<in>set (GetSongList (icChannelID ic) (storage h)). RequestedBy song \<noteq> None"
  shows "\<exists>h1 effs. AddSongOrPlaylist s ic h = Done h1 effs
    \<and> storage h1 = DeleteSongList (icChannelID ic) (storage h)"
proof -
  from assms(1) obtain v vrest where chosen: "icValues ic = v # vrest"
    by (cases "icValues ic") auto
  from assms(3) obtain song others where songs: "GetSongList (icChannelID ic) (storage h) = song # others"
    by (cases "GetSongList (icChannelID ic) (storage h)") auto
  with assms(5) obtain requester where requester: "RequestedBy song = Some requester"
    by auto
  show ?thesis
    using chosen assms(2) songs assms(4) requester
    by (simp add: AddSongOrPlaylist_def Let_def case_prod_beta split: option.splits)
qed

lemma AddSongOrPlaylist_after:
  assumes "storage h (icChannelID ic) = None"
  shows "AddSongOrPlaylist s ic h =
    Done h [if icValues ic = [] then Respond MsgSomethingWentWrong
            else if State_Guild s (icGuildID ic) = None then RespondServerError
            else Respond MsgAlreadySelected]"
  using assms
  by (auto simp: AddSongOrPlaylist_def GetSongList_def split: list.splits option.splits)

text \<open>
  C9. The storage starts empty, and \<open>h\<close> is the handler after any run of events. Every
  list that is stored then was saved by the lookup goroutine of a \<open>PlaySong\<close>, which has set
  the requester of each of its songs. Take a selection on a channel that goes through its
  checks: it carries a value, its guild is known, the channel has a stored song list and
  the user is in a voice channel. The selection completes, for \<open>song\<close> as for \<open>playlist\<close>,
  and after it the stored list of the channel is deleted. It stays deleted through every
  later event that is not the lookup goroutine of a \<open>PlaySong\<close> on this channel, and every
  later selection on the channel finds the empty list: it changes nothing (no song is added
  to any queue, and no method of a player is called) and its one response is that the
  interaction was already selected, or, when it carries no value or its guild is unknown,
  the error response of these two checks, which come first.
\<close>

theorem song_list_consumed_once:
  assumes "storage h0 = Map.empty"
    and "handleAll str pre h0 = Some h"
    and "icValues ic \<noteq> []"
    and "State_Guild s (icGuildID ic) = Some g"
    and "GetSongList (icChannelID ic) (storage h) \<noteq> []"
    and "getUsersVoiceState g (icUserID ic) = Some vs"
    and "\<forall>ev\<in>set evs. \<not> savesSongList (icChannelID ic) ev"
    and "icChannelID ic' = icChannelID ic"
  shows "(\<forall>song\<in>set (GetSongList (icChannelID ic) (storage h)). RequestedBy song \<noteq> None)
    \<and> (\<exists>h1 effs. AddSongOrPlaylist s ic h = Done h1 effs
        \<and> GetSongList (icChannelID ic) (storage h1) = []
        \<and> (\<forall>h2. handleAll str evs h1 = Some h2 \<longrightarrow>
              GetSongList (icChannelID ic) (storage h2) = []
              \<and> AddSongOrPlaylist s' ic' h2 =
                  Done h2 [if icValues ic' = [] then Respond MsgSomethingWentWrong
                           else if State_Guild s' (icGuildID ic') = None then RespondServerError
                           else Respond MsgAlreadySelected]))"
proof -
  have "requested h0"
    using assms(1) by (simp add: requested_def)
  then have "requested h"
    using assms(2) by (rule handleAll_requested)
  have named: "\<forall>song\<in>set (GetSongList (icChannelID ic) (storage h)). RequestedBy song \<noteq> None"
  proof (cases "storage h (icChannelID ic)")
    case None
    then show ?thesis by (simp add: GetSongList_def)
  next
    case (Some songs)
    with \<open>requested h\<close> have "\<forall>song\<in>set songs. RequestedBy song \<noteq> None"
      unfolding requested_def by blast
    with Some show ?thesis by (simp add: GetSongList_def)
  qed
  from AddSongOrPlaylist_completes [OF assms(3-6) named]
  obtain h1 effs where run: "AddSongOrPlaylist s ic h = Done h1 effs"
    and deleted: "storage h1 = DeleteSongList (icChannelID ic) (storage h)"
    by blast
  from deleted have gone: "storage h1 (icChannelID ic) = None"
    by (simp add: DeleteSongList_def)
  have later: "GetSongList (icChannelID ic) (storage h2) = []
      \<and> AddSongOrPlaylist s' ic' h2 =
          Done h2 [if icValues ic' = [] then Respond MsgSomethingWentWrong
                   else if State_Guild s' (icGuildID ic') = None then RespondServerError
                   else Respond MsgAlreadySelected]"
    if "handleAll str evs h1 = Some h2" for h2
  proof -
    have still: "storage h2 (icChannelID ic) = None"
      using gone assms(7) that by (rule handleAll_keeps_deleted)
    then have "storage h2 (icChannelID ic') = None"
      using assms(8) by simp
    from AddSongOrPlaylist_after [OF this, of s'] still show ?thesis
      by (simp add: GetSongList_def)
  qed
  from gone have empty: "GetSongList (icChannelID ic) (storage h1) = []"
    by (simp add: GetSongList_def)
  show ?thesis
  proof (intro conjI exI [of _ h1] exI [of _ effs] allI impI)
    show "\<forall>song\<in>set (GetSongList (icChannelID ic) (storage h)). RequestedBy song \<noteq> None"
      by (rule named)
    show "AddSongOrPlaylist s ic h = Done h1 effs"
      by (rule run)
    show "GetSongList (icChannelID ic) (storage h1) = []"
      by (rule empty)
    show "GetSongList (icChannelID ic) (storage h2) = []"
      if "handleAll str evs h1 = Some h2" for h2
      using later [OF that] by (rule conjunct1)
    show "AddSongOrPlaylist s' ic' h2 =
          Done h2 [if icValues ic' = [] then Respond MsgSomethingWentWrong
                   else if State_Guild s' (icGuildID ic') = None then RespondServerError
                   else Respond MsgAlreadySelected]"
      if "handleAll str evs h1 = Some h2" for h2
      using later [OF that] by (rule conjunct2)
  qed
qed

theorem song_list_consumed_once_witness:
  "handleAll longName
     [OnPlaySong exVoiceSession exInteraction [(''input'', StringOption ''a list'')],
      OnPlaySongLookup exInteraction \<lparr>vsUserID = ''u1'', vsChannelID = ''vc''\<rparr> ''a list'' ''g''
        StillRegistered] exFinder = Some exSaved
   \<and> AddSongOrPlaylist exVoiceSession exInteraction exSaved =
       Done exAdded [OnPlayer ''g'' (CallAddSong ''c'' ''vc'' (exRequested ''A'')),
                     RespondEmbed (AddedToQueueEmbed (exRequested ''A''))]
   \<and> handleAll longName [OnSkipSong exVoiceSession exInteraction] exAdded = Some exAdded
   \<and> GetSongList ''c'' (storage exAdded) = []
   \<and> AddSongOrPlaylist exVoiceSession exInteraction exAdded = Done exAdded [Respond MsgAlreadySelected]"
proof -
  let ?pre = "[OnPlaySong exVoiceSession exInteraction [(''input'', StringOption ''a list'')],
      OnPlaySongLookup exInteraction \<lparr>vsUserID = ''u1'', vsChannelID = ''vc''\<rparr> ''a list'' ''g''
        StillRegistered]"
  have start: "storage exFinder = Map.empty"
    by (simp add: exFinder_def exHandler_def)
  have saving: "handleAll longName ?pre exFinder = Some exSaved"
    by (simp add: PlaySong_def playSongLookup_def exVoiceSession_def exInteraction_def
        exFinder_def exSaved_def exHandler_def exVoiceGuild_def exGuild_def
        getUsersVoiceState_def getGuildPlayer_def optionMap_def Let_def SaveSongList_def
        exRequested_def exTitled_def exSong_def)
  have first: "AddSongOrPlaylist exVoiceSession exInteraction exSaved =
     Done exAdded [OnPlayer ''g'' (CallAddSong ''c'' ''vc'' (exRequested ''A'')),
                   RespondEmbed (AddedToQueueEmbed (exRequested ''A''))]"
    by (simp add: AddSongOrPlaylist_def exVoiceSession_def exInteraction_def exSaved_def
        exFinder_def exHandler_def GetSongList_def exVoiceGuild_def exGuild_def
        getUsersVoiceState_def getGuildPlayer_def AddSong_def NewGuildPlayer_def exAdded_def
        Let_def setPlayer_def DeleteSongList_def exRequested_def)
  have later: "handleAll longName [OnSkipSong exVoiceSession exInteraction] exAdded = Some exAdded"
    by (simp add: SkipSongHandler_def exVoiceSession_def exInteraction_def exAdded_def
        exFinder_def exHandler_def exVoiceGuild_def exGuild_def getGuildPlayer_def SkipSong_def
        NewGuildPlayer_def setPlayer_def)
  have chosen: "icValues exInteraction \<noteq> []"
    by (simp add: exInteraction_def)
  have g: "State_Guild exVoiceSession (icGuildID exInteraction) = Some exVoiceGuild"
    by (simp add: exVoiceSession_def exInteraction_def)
  have saved: "GetSongList (icChannelID exInteraction) (storage exSaved) \<noteq> []"
    by (simp add: GetSongList_def exInteraction_def exSaved_def)
  have vs: "getUsersVoiceState exVoiceGuild (icUserID exInteraction)
      = Some \<lparr>vsUserID = ''u1'', vsChannelID = ''vc''\<rparr>"
    by (simp add: getUsersVoiceState_def exVoiceGuild_def exInteraction_def)
  have evs: "\<forall>ev\<in>set [OnSkipSong exVoiceSession exInteraction].
      \<not> savesSongList (icChannelID exInteraction) ev"
    by simp
  have c: "icChannelID exInteraction = ''c''"
    by (simp add: exInteraction_def)
  from song_list_consumed_once [OF start saving chosen g saved vs evs refl, of exVoiceSession]
  obtain h1 effs where run: "AddSongOrPlaylist exVoiceSession exInteraction exSaved = Done h1 effs"
    and empty: "GetSongList (icChannelID exInteraction) (storage h1) = []"
    and after: "\<forall>h2. handleAll longName [OnSkipSong exVoiceSession exInteraction] h1 = Some h2 \<longrightarrow>
        GetSongList (icChannelID exInteraction) (storage h2) = []
        \<and> AddSongOrPlaylist exVoiceSession exInteraction h2 =
            Done h2 [if icValues exInteraction = [] then Respond MsgSomethingWentWrong
                     else if State_Guild exVoiceSession (icGuildID exInteraction) = None
                       then RespondServerError
                     else Respond MsgAlreadySelected]"
    by blast
  from run first have h1: "h1 = exAdded"
    by simp
  from after later have "AddSongOrPlaylist exVoiceSession exInteraction exAdded =
      Done exAdded [if icValues exInteraction = [] then Respond MsgSomethingWentWrong
                     else if State_Guild exVoiceSession (icGuildID exInteraction) = None
                       then RespondServerError
                     else Respond MsgAlreadySelected]"
    unfolding h1 by blast
  then have again: "AddSongOrPlaylist exVoiceSession exInteraction exAdded =
      Done exAdded [Respond MsgAlreadySelected]"
    using chosen g by simp
  from empty have "GetSongList ''c'' (storage exAdded) = []"
    unfolding h1 c .
  with saving first later again show ?thesis
    by simp
qed

section \<open>Who inserts and who removes entries of the registry\<close>

lemma addPlaylist_calls:
  "e \<in> set (snd (addPlaylist guildID td vd songs player)) \<Longrightarrow>
     \<exists>song. e = OnPlayer guildID (CallAddSong td vd song)"
  by (induction songs arbitrary: player) (auto simp: case_prod_beta Let_def)

lemma GuildCreate_registry:
  assumes "GuildCreate g h = Done h' effs"
  shows "h' = (if gUnavailable g then h else setPlayer (gID g) NewGuildPlayer h)"
    and "effs = (if gUnavailable g then []
                 else [OnPlayer (gID g) CallStartListeningEvents, OnPlayer (gID g) CallRun])"
  using assms by (auto simp: GuildCreate_def setupGuildPlayer_def split: if_splits)

lemma GuildDelete_registry:
  assumes "GuildDelete g h = Done h' effs"
  shows "guildsPlayers h' = (guildsPlayers h)(gID g := None)" and "effs = [OnPlayer (gID g) CallClose]"
  using assms
  by (auto simp: GuildDelete_def getGuildPlayer_players Let_def case_prod_beta)

lemma StopPlaying_registry:
  assumes "StopPlaying s ic h = Done h' effs"
  shows "x \<notin> interactionGuild s ic \<Longrightarrow> guildsPlayers h' x = guildsPlayers h x"
    and "dom (guildsPlayers h') = dom (guildsPlayers h) \<union> interactionGuild s ic"
    and "LockRegistry \<notin> set effs \<and> UnlockRegistry \<notin> set effs"
  using assms
  by (auto simp: StopPlaying_def getGuildPlayer_players case_prod_beta split: option.splits)

lemma SkipSongHandler_registry:
  assumes "SkipSongHandler s ic h = Done h' effs"
  shows "x \<notin> interactionGuild s ic \<Longrightarrow> guildsPlayers h' x = guildsPlayers h x"
    and "dom (guildsPlayers h') = dom (guildsPlayers h) \<union> interactionGuild s ic"
    and "LockRegistry \<notin> set effs \<and> UnlockRegistry \<notin> set effs"
  using assms
  by (auto simp: SkipSongHandler_def getGuildPlayer_players case_prod_beta split: option.splits)

lemma ListPlaylist_registry:
  assumes "ListPlaylist str s ic h = Done h' effs"
  shows "x \<notin> interactionGuild s ic \<Longrightarrow> guildsPlayers h' x = guildsPlayers h x"
    and "dom (guildsPlayers h') = dom (guildsPlayers h) \<union> interactionGuild s ic"
    and "LockRegistry \<notin> set effs \<and> UnlockRegistry \<notin> set effs"
  using assms
  by (auto simp: ListPlaylist_def getGuildPlayer_players case_prod_beta
      split: option.splits sum.splits if_splits)

lemma RemoveSongHandler_registry:
  assumes "RemoveSongHandler s ic opt h = Done h' effs"
  shows "x \<notin> interactionGuild s ic \<Longrightarrow> guildsPlayers h' x = guildsPlayers h x"
    and "dom (guildsPlayers h') = dom (guildsPlayers h) \<union> interactionGuild s ic"
    and "LockRegistry \<notin> set effs \<and> UnlockRegistry \<notin> set effs"
  using assms
  by (auto simp: RemoveSongHandler_def getGuildPlayer_players case_prod_beta
      split: option.splits sum.splits if_splits)

lemma GetPlayingSong_registry:
  assumes "GetPlayingSong s ic h = Done h' effs"
  shows "x \<notin> interactionGuild s ic \<Longrightarrow> guildsPlayers h' x = guildsPlayers h x"
    and "dom (guildsPlayers h') = dom (guildsPlayers h) \<union> interactionGuild s ic"
    and "LockRegistry \<notin> set effs \<and> UnlockRegistry \<notin> set effs"
  using assms
  by (auto simp: GetPlayingSong_def getGuildPlayer_players case_prod_beta
      split: option.splits sum.splits)

lemma PlaySong_registry:
  assumes "PlaySong s ic opt h = Done h' effs"
  shows "x \<notin> interactionGuild s ic \<Longrightarrow> guildsPlayers h' x = guildsPlayers h x"
    and "dom (guildsPlayers h') = dom (guildsPlayers h) \<union> interactionGuild s ic"
    and "LockRegistry \<notin> set effs \<and> UnlockRegistry \<notin> set effs"
  using assms
  by (auto simp: PlaySong_def getGuildPlayer_players case_prod_beta split: option.splits)

lemma writeCaptured_players:
  "guildsPlayers (writeCaptured cap guildID player h) x =
     (if x = guildID \<and> cap = StillRegistered \<and> guildsPlayers h guildID \<noteq> None
      then Some player else guildsPlayers h x)"
  by (auto simp: writeCaptured_def split: Captured.splits option.splits)

lemma writeCaptured_dom [simp]:
  "dom (guildsPlayers (writeCaptured cap guildID player h)) = dom (guildsPlayers h)"
  by (auto simp: writeCaptured_def split: Captured.splits option.splits)

lemma playSongLookup_registry:
  assumes "playSongLookup ic vs input guildID cap h = Done h' effs"
  shows "x \<noteq> guildID \<Longrightarrow> guildsPlayers h' x = guildsPlayers h x"
    and "dom (guildsPlayers h') = dom (guildsPlayers h)"
    and "LockRegistry \<notin> set effs \<and> UnlockRegistry \<notin> set effs"
proof -
  from assms consider "guildsPlayers h' = guildsPlayers h"
    | player where "h' = writeCaptured cap guildID player h"
    by (auto simp: playSongLookup_def Let_def case_prod_beta
        split: sum.splits list.splits option.splits)
  then show "x \<noteq> guildID \<Longrightarrow> guildsPlayers h' x = guildsPlayers h x"
    by cases (simp_all add: writeCaptured_players)
  from assms consider "guildsPlayers h' = guildsPlayers h"
    | player where "h' = writeCaptured cap guildID player h"
    by (auto simp: playSongLookup_def Let_def case_prod_beta
        split: sum.splits list.splits option.splits)
  then show "dom (guildsPlayers h') = dom (guildsPlayers h)"
    by cases simp_all
  from assms show "LockRegistry \<notin> set effs \<and> UnlockRegistry \<notin> set effs"
    by (auto simp: playSongLookup_def Let_def case_prod_beta
        split: sum.splits list.splits option.splits)
qed

lemma AddSongOrPlaylist_idle:
  assumes "icValues ic = [] \<or> GetSongList (icChannelID ic) (storage h) = []"
    and "AddSongOrPlaylist s ic h = Done h' effs"
  shows "h' = h"
  using assms
  by (auto simp: AddSongOrPlaylist_def split: list.splits option.splits)

lemma AddSongOrPlaylist_registry:
  assumes "AddSongOrPlaylist s ic h = Done h' effs"
  shows "x \<notin> interactionGuild s ic \<Longrightarrow> guildsPlayers h' x = guildsPlayers h x"
    and "dom (guildsPlayers h) \<subseteq> dom (guildsPlayers h')"
    and "icValues ic \<noteq> [] \<Longrightarrow> GetSongList (icChannelID ic) (storage h) \<noteq> [] \<Longrightarrow>
           interactionGuild s ic \<subseteq> dom (guildsPlayers h')"
    and "LockRegistry \<notin> set effs \<and> UnlockRegistry \<notin> set effs"
proof -
  show "x \<notin> interactionGuild s ic \<Longrightarrow> guildsPlayers h' x = guildsPlayers h x"
    using assms
    by (auto simp: AddSongOrPlaylist_def getGuildPlayer_players Let_def case_prod_beta
        split: list.splits option.splits if_splits)
  show "dom (guildsPlayers h) \<subseteq> dom (guildsPlayers h')"
    using assms
    by (auto simp: AddSongOrPlaylist_def getGuildPlayer_players Let_def case_prod_beta
        split: list.splits option.splits if_splits)
  show "icValues ic \<noteq> [] \<Longrightarrow> GetSongList (icChannelID ic) (storage h) \<noteq> [] \<Longrightarrow>
           interactionGuild s ic \<subseteq> dom (guildsPlayers h')"
    using assms
    by (auto simp: AddSongOrPlaylist_def getGuildPlayer_players Let_def case_prod_beta
        split: list.splits option.splits if_splits)
  show "LockRegistry \<notin> set effs \<and> UnlockRegistry \<notin> set effs"
    using assms
    by (auto simp: AddSongOrPlaylist_def Let_def case_prod_beta
        dest: addPlaylist_calls split: list.splits option.splits if_splits prod.splits)
qed

text \<open>
  C6, as the code has it. An entry of the registry is inserted by the join handler
  \<open>GuildCreate\<close>, for a guild that is available, and by \<open>getGuildPlayer\<close>, the lookup that
  sets a player up when the guild has none: every command handler calls it once it has
  found the guild of its interaction (\<open>AddSongOrPlaylist\<close> only when it carries a value and
  the channel has a stored song list; otherwise it leaves the handler as it is). The join
  handler of a guild that has a player already puts a new player in its place, and calls
  neither \<open>Stop\<close> nor \<open>Close\<close> on the old one. A key is removed only by the leave handler
  \<open>GuildDelete\<close>, which removes the entry of its guild after it has called \<open>Close\<close> on the
  player, and \<open>Close\<close> is the transition of \<open>Stop\<close>. No handler inserts, replaces or
  removes the entry of another guild than the one its event names. The lookup goroutine of
  \<open>PlaySong\<close> and the presence monitor insert and remove no key. No handler takes a lock.
\<close>

theorem registry_entries:
  assumes "handle str ev h = Done h' effs"
  shows "(\<forall>x. x \<notin> eventGuild ev \<longrightarrow> guildsPlayers h' x = guildsPlayers h x)
    \<and> (\<not> isGuildDelete ev \<longrightarrow> dom (guildsPlayers h) \<subseteq> dom (guildsPlayers h'))
    \<and> (\<forall>g. ev = OnGuildCreate g \<longrightarrow>
          h' = (if gUnavailable g then h else setPlayer (gID g) NewGuildPlayer h)
          \<and> effs = (if gUnavailable g then []
                    else [OnPlayer (gID g) CallStartListeningEvents, OnPlayer (gID g) CallRun]))
    \<and> (\<forall>g. ev = OnGuildDelete g \<longrightarrow>
          guildsPlayers h' = (guildsPlayers h)(gID g := None)
          \<and> effs = [OnPlayer (gID g) CallClose])
    \<and> (looksUpPlayer ev \<longrightarrow> eventGuild ev \<subseteq> dom (guildsPlayers h'))
    \<and> (\<forall>s ic. ev = OnAddSongOrPlaylist s ic \<longrightarrow>
          (if icValues ic \<noteq> [] \<and> GetSongList (icChannelID ic) (storage h) \<noteq> []
           then eventGuild ev \<subseteq> dom (guildsPlayers h') else h' = h))
    \<and> (\<forall>ic vs input guildID cap. ev = OnPlaySongLookup ic vs input guildID cap \<longrightarrow>
          dom (guildsPlayers h') = dom (guildsPlayers h))
    \<and> LockRegistry \<notin> set effs \<and> UnlockRegistry \<notin> set effs
    \<and> (\<forall>p. Close p = Stop p)
    \<and> dom (guildsPlayers (fst (snd (CheckVoiceChannelsPresence sel h)))) = dom (guildsPlayers h)"
proof -
  have monitor: "dom (guildsPlayers (fst (snd (CheckVoiceChannelsPresence sel h)))) = dom (guildsPlayers h)"
    by (rule monitor_dom)
  have close: "\<forall>p. Close p = Stop p"
    by (simp add: Close_def)
  have main: "(\<forall>x. x \<notin> eventGuild ev \<longrightarrow> guildsPlayers h' x = guildsPlayers h x)
    \<and> (\<not> isGuildDelete ev \<longrightarrow> dom (guildsPlayers h) \<subseteq> dom (guildsPlayers h'))
    \<and> (\<forall>g. ev = OnGuildCreate g \<longrightarrow>
          h' = (if gUnavailable g then h else setPlayer (gID g) NewGuildPlayer h)
          \<and> effs = (if gUnavailable g then []
                    else [OnPlayer (gID g) CallStartListeningEvents, OnPlayer (gID g) CallRun]))
    \<and> (\<forall>g. ev = OnGuildDelete g \<longrightarrow>
          guildsPlayers h' = (guildsPlayers h)(gID g := None)
          \<and> effs = [OnPlayer (gID g) CallClose])
    \<and> (looksUpPlayer ev \<longrightarrow> eventGuild ev \<subseteq> dom (guildsPlayers h'))
    \<and> (\<forall>s ic. ev = OnAddSongOrPlaylist s ic \<longrightarrow>
          (if icValues ic \<noteq> [] \<and> GetSongList (icChannelID ic) (storage h) \<noteq> []
           then eventGuild ev \<subseteq> dom (guildsPlayers h') else h' = h))
    \<and> (\<forall>ic vs input guildID cap. ev = OnPlaySongLookup ic vs input guildID cap \<longrightarrow>
          dom (guildsPlayers h') = dom (guildsPlayers h))
    \<and> LockRegistry \<notin> set effs \<and> UnlockRegistry \<notin> set effs"
  proof (cases ev)
    case (OnGuildCreate g)
    with assms have run: "GuildCreate g h = Done h' effs" by simp
    note facts = GuildCreate_registry [OF run]
    from facts have "guildsPlayers h' x = guildsPlayers h x" if "x \<noteq> gID g" for x
      using that by (simp split: if_splits)
    moreover from facts have "dom (guildsPlayers h) \<subseteq> dom (guildsPlayers h')"
      by (auto split: if_splits)
    moreover from facts have "LockRegistry \<notin> set effs \<and> UnlockRegistry \<notin> set effs"
      by (simp split: if_splits)
    ultimately show ?thesis
      using OnGuildCreate facts by simp
  next
    case (OnGuildDelete g)
    with assms have run: "GuildDelete g h = Done h' effs" by simp
    note facts = GuildDelete_registry [OF run]
    then show ?thesis
      using OnGuildDelete by simp
  next
    case (OnPlaySong s ic opt)
    with assms have run: "PlaySong s ic opt h = Done h' effs" by simp
    from PlaySong_registry [OF run] show ?thesis
      using OnPlaySong by auto
  next
    case (OnPlaySongLookup ic vs input guildID cap)
    with assms have run: "playSongLookup ic vs input guildID cap h = Done h' effs" by simp
    from playSongLookup_registry [OF run] show ?thesis
      using OnPlaySongLookup by auto
  next
    case (OnAddSongOrPlaylist s ic)
    with assms have run: "AddSongOrPlaylist s ic h = Done h' effs" by simp
    have idle: "h' = h" if "\<not> (icValues ic \<noteq> [] \<and> GetSongList (icChannelID ic) (storage h) \<noteq> [])"
      using that run AddSongOrPlaylist_idle [of ic h s h' effs] by blast
    from AddSongOrPlaylist_registry [OF run] idle show ?thesis
      using OnAddSongOrPlaylist by auto
  next
    case (OnStopPlaying s ic)
    with assms have run: "StopPlaying s ic h = Done h' effs" by simp
    from StopPlaying_registry [OF run] show ?thesis
      using OnStopPlaying by auto
  next
    case (OnSkipSong s ic)
    with assms have run: "SkipSongHandler s ic h = Done h' effs" by simp
    from SkipSongHandler_registry [OF run] show ?thesis
      using OnSkipSong by auto
  next
    case (OnListPlaylist s ic)
    with assms have run: "ListPlaylist str s ic h = Done h' effs" by simp
    from ListPlaylist_registry [OF run] show ?thesis
      using OnListPlaylist by auto
  next
    case (OnRemoveSong s ic opt)
    with assms have run: "RemoveSongHandler s ic opt h = Done h' effs" by simp
    from RemoveSongHandler_registry [OF run] show ?thesis
      using OnRemoveSong by auto
  next
    case (OnGetPlayingSong s ic)
    with assms have run: "GetPlayingSong s ic h = Done h' effs" by simp
    from GetPlayingSong_registry [OF run] show ?thesis
      using OnGetPlayingSong by auto
  qed
  from main close monitor show ?thesis
    by (elim conjE) (intro conjI; assumption)
qed

theorem registry_entries_witness:
  "handle longName (OnGuildDelete exGuild) (exHandler exPlaying) = Done exEmpty [OnPlayer ''g'' CallClose]
   \<and> guildsPlayers exEmpty = (guildsPlayers (exHandler exPlaying))(''g'' := None)
   \<and> handle longName (OnStopPlaying exSession exInteraction) (exHandler exPlaying) =
        Done (exHandler exStopped) [OnPlayer ''g'' CallStop, Respond MsgStopped]
   \<and> dom (guildsPlayers (exHandler exPlaying)) \<subseteq> dom (guildsPlayers (exHandler exStopped))
   \<and> {''g''} \<subseteq> dom (guildsPlayers (exHandler exStopped))
   \<and> handle longName (OnGuildCreate exGuild) exEmpty =
        Done (exHandler NewGuildPlayer)
          [OnPlayer ''g'' CallStartListeningEvents, OnPlayer ''g'' CallRun]
   \<and> exHandler NewGuildPlayer = setPlayer ''g'' NewGuildPlayer exEmpty"
proof -
  have leave: "handle longName (OnGuildDelete exGuild) (exHandler exPlaying)
      = Done exEmpty [OnPlayer ''g'' CallClose]"
    by (simp add: GuildDelete_def exGuild_def exHandler_def exEmpty_def getGuildPlayer_def)
  have stop: "handle longName (OnStopPlaying exSession exInteraction) (exHandler exPlaying) =
        Done (exHandler exStopped) [OnPlayer ''g'' CallStop, Respond MsgStopped]"
    by (simp add: StopPlaying_def exSession_def exInteraction_def exGuild_def exHandler_def
        getGuildPlayer_def Stop_def exPlaying_def exStopped_def NewGuildPlayer_def setPlayer_def)
  have join: "handle longName (OnGuildCreate exGuild) exEmpty =
        Done (exHandler NewGuildPlayer)
          [OnPlayer ''g'' CallStartListeningEvents, OnPlayer ''g'' CallRun]"
    by (simp add: GuildCreate_def exGuild_def exHandler_def exEmpty_def setupGuildPlayer_def
        setPlayer_def)
  have g: "eventGuild (OnStopPlaying exSession exInteraction) = {''g''}"
    by (simp add: exSession_def exInteraction_def exGuild_def)
  from registry_entries [OF leave]
  have "guildsPlayers exEmpty = (guildsPlayers (exHandler exPlaying))(''g'' := None)"
    by (simp add: exGuild_def)
  moreover from registry_entries [OF stop]
  have "dom (guildsPlayers (exHandler exPlaying)) \<subseteq> dom (guildsPlayers (exHandler exStopped))"
    "{''g''} \<subseteq> dom (guildsPlayers (exHandler exStopped))"
    unfolding g by simp_all
  moreover from registry_entries [OF join]
  have "exHandler NewGuildPlayer = setPlayer ''g'' NewGuildPlayer exEmpty"
    by (simp add: exGuild_def)
  ultimately show ?thesis
    using leave stop join by simp
qed

theorem registry_insert_counterexample:
  "guildsPlayers exEmpty ''g'' = None
   \<and> handle longName (OnGetPlayingSong exSession exInteraction) exEmpty =
        Done (exHandler NewGuildPlayer) [OnPlayer ''g'' CallGetPlayedSong, Respond MsgNothingPlaying]
   \<and> guildsPlayers (exHandler NewGuildPlayer) ''g'' = Some NewGuildPlayer
   \<and> LockRegistry \<notin> set [OnPlayer ''g'' CallGetPlayedSong, Respond MsgNothingPlaying]
   \<and> guildsPlayers (exHandler exPlaying) ''g'' = Some exPlaying
   \<and> state exPlaying = Playing
   \<and> handle longName (OnGuildCreate exGuild) (exHandler exPlaying) =
        Done (exHandler NewGuildPlayer)
          [OnPlayer ''g'' CallStartListeningEvents, OnPlayer ''g'' CallRun]
   \<and> OnPlayer ''g'' CallStop
        \<notin> set [OnPlayer ''g'' CallStartListeningEvents, OnPlayer ''g'' CallRun]
   \<and> exPlaying \<noteq> NewGuildPlayer"
  by (simp add: GetPlayingSong_def GuildCreate_def exSession_def exInteraction_def exGuild_def
      exHandler_def exEmpty_def getGuildPlayer_def setupGuildPlayer_def GetPlayedSong_def
      NewGuildPlayer_def exPlaying_def setPlayer_def Let_def)

section \<open>The presence monitor stops the players that are alone\<close>

lemma checkGuild_players:
  "guildsPlayers (fst (checkGuild occ guildID h)) =
     (if soleOccupant occ guildID
      then (\<lambda>g. if g = guildID then map_option (\<lambda>p. snd (Stop p)) (guildsPlayers h g)
                 else guildsPlayers h g)
      else guildsPlayers h)"
  by (auto simp: checkGuild_def soleOccupant_def case_prod_beta split: option.splits)

lemma checkGuild_rest:
  "storage (fst (checkGuild occ guildID h)) = storage h"
  "songLookuper (fst (checkGuild occ guildID h)) = songLookuper h"
  by (auto simp: checkGuild_def case_prod_beta split: option.splits)

lemma checkGuild_effects: "snd (checkGuild occ guildID h) = tickCalls occ h guildID"
  by (auto simp: checkGuild_def tickCalls_def soleOccupant_def case_prod_beta split: option.splits)

lemma tickCalls_dom:
  assumes "dom (guildsPlayers h') = dom (guildsPlayers h)"
  shows "tickCalls occ h' = tickCalls occ h"
proof (rule ext)
  fix g
  have "(g \<in> dom (guildsPlayers h')) = (g \<in> dom (guildsPlayers h))"
    using assms by simp
  then have "(guildsPlayers h' g = None) = (guildsPlayers h g = None)"
    by (simp only: domIff) blast
  then show "tickCalls occ h' g = tickCalls occ h g"
    by (auto simp: tickCalls_def split: option.splits)
qed

lemma presenceTick_players:
  assumes "distinct ks"
  shows "guildsPlayers (fst (presenceTick occ ks h)) g =
     (if g \<in> set ks \<and> soleOccupant occ g
      then map_option (\<lambda>p. snd (Stop p)) (guildsPlayers h g) else guildsPlayers h g)"
  using assms
proof (induction ks arbitrary: h)
  case Nil
  show ?case by simp
next
  case (Cons k ks)
  let ?h1 = "fst (checkGuild occ k h)"
  have step: "fst (presenceTick occ (k # ks) h) = fst (presenceTick occ ks ?h1)"
    by (simp add: case_prod_beta)
  from Cons.prems have k: "k \<notin> set ks" and d: "distinct ks" by simp_all
  show ?case
    unfolding step Cons.IH [OF d] using k by (auto simp: checkGuild_players)
qed

lemma presenceTick_rest:
  "storage (fst (presenceTick occ ks h)) = storage h"
  "songLookuper (fst (presenceTick occ ks h)) = songLookuper h"
  by (induction ks arbitrary: h) (simp_all add: case_prod_beta checkGuild_rest)

lemma presenceTick_effects:
  "snd (presenceTick occ ks h) = concat (map (tickCalls occ h) ks)"
proof (induction ks arbitrary: h)
  case Nil
  show ?case by simp
next
  case (Cons k ks)
  have "tickCalls occ (fst (checkGuild occ k h)) = tickCalls occ h"
    by (rule tickCalls_dom) (rule checkGuild_dom)
  with Cons.IH [of "fst (checkGuild occ k h)"] show ?case
    by (simp add: case_prod_beta checkGuild_effects)
qed

lemma monitor_returns: "fst (CheckVoiceChannelsPresence evs h) = (CtxDone \<in> set evs)"
proof (induction evs arbitrary: h)
  case Nil
  show ?case by simp
next
  case (Cons ev evs)
  then show ?case by (cases ev) (simp_all add: case_prod_beta)
qed

lemma monitor_append:
  assumes "CtxDone \<notin> set pre"
  shows "CheckVoiceChannelsPresence (pre @ evs) h =
    (fst (CheckVoiceChannelsPresence evs (fst (snd (CheckVoiceChannelsPresence pre h)))),
     fst (snd (CheckVoiceChannelsPresence evs (fst (snd (CheckVoiceChannelsPresence pre h))))),
     snd (snd (CheckVoiceChannelsPresence pre h))
       @ snd (snd (CheckVoiceChannelsPresence evs (fst (snd (CheckVoiceChannelsPresence pre h))))))"
  using assms
proof (induction pre arbitrary: h)
  case Nil
  show ?case by simp
next
  case (Cons ev pre)
  show ?case
  proof (cases ev)
    case (TickerC occ ks)
    with Cons.prems have "CtxDone \<notin> set pre" by simp
    from Cons.IH [OF this, of "fst (presenceTick occ ks h)"] TickerC show ?thesis
      by (simp add: case_prod_beta)
  next
    case CtxDone
    with Cons.prems show ?thesis by simp
  qed
qed

lemma monitor_one_tick:
  "CheckVoiceChannelsPresence [TickerC occ ks] h =
     (False, fst (presenceTick occ ks h), snd (presenceTick occ ks h))"
  by (simp add: case_prod_beta)

text \<open>
  C7. Take the monitor at any tick: its \<open>select\<close> has received the ticks \<open>pre\<close> and not
  yet the end of the handler's context, and now receives a tick. The monitor goes through
  the players of the registry, each once, in whatever order. For each it asks for the
  occupancy of the voice channel bound to the guild, and when that shows exactly one member
  (the bot alone) it calls \<open>Stop\<close> on the player: after the tick these players are what
  \<open>Stop\<close> makes of them, every other player is as before, and the calls that the tick adds
  to those made so far are these and no others. The storage is not touched. What the
  monitor receives later is handled on the state that this leaves. When it receives the end
  of the context it returns at once, with the state as the ticks left it, and it has
  returned exactly when it has received that.
\<close>

theorem presence_monitor_stops_alone:
  assumes "CtxDone \<notin> set pre" and "distinct ks" and "set ks = dom (guildsPlayers h)"
  shows "(\<forall>g. guildsPlayers (fst (snd (CheckVoiceChannelsPresence (pre @ [TickerC occ ks]) h))) g =
            (if soleOccupant occ g
             then map_option (\<lambda>p. snd (Stop p))
                    (guildsPlayers (fst (snd (CheckVoiceChannelsPresence pre h))) g)
             else guildsPlayers (fst (snd (CheckVoiceChannelsPresence pre h))) g))
    \<and> snd (snd (CheckVoiceChannelsPresence (pre @ [TickerC occ ks]) h)) =
        snd (snd (CheckVoiceChannelsPresence pre h))
          @ concat (map (tickCalls occ (fst (snd (CheckVoiceChannelsPresence pre h)))) ks)
    \<and> (\<forall>g. OnPlayer g CallStop
              \<in> set (concat (map (tickCalls occ (fst (snd (CheckVoiceChannelsPresence pre h)))) ks))
            \<longleftrightarrow> g \<in> dom (guildsPlayers h) \<and> soleOccupant occ g)
    \<and> storage (fst (snd (CheckVoiceChannelsPresence (pre @ [TickerC occ ks]) h))) = storage h
    \<and> dom (guildsPlayers (fst (snd (CheckVoiceChannelsPresence pre h)))) = dom (guildsPlayers h)
    \<and> CheckVoiceChannelsPresence (pre @ TickerC occ ks # post) h =
        (fst (CheckVoiceChannelsPresence post
                (fst (snd (CheckVoiceChannelsPresence (pre @ [TickerC occ ks]) h)))),
         fst (snd (CheckVoiceChannelsPresence post
                (fst (snd (CheckVoiceChannelsPresence (pre @ [TickerC occ ks]) h))))),
         snd (snd (CheckVoiceChannelsPresence (pre @ [TickerC occ ks]) h))
           @ snd (snd (CheckVoiceChannelsPresence post
                (fst (snd (CheckVoiceChannelsPresence (pre @ [TickerC occ ks]) h))))))
    \<and> CheckVoiceChannelsPresence (pre @ CtxDone # post) h =
        (True, fst (snd (CheckVoiceChannelsPresence pre h)),
         snd (snd (CheckVoiceChannelsPresence pre h)))
    \<and> fst (CheckVoiceChannelsPresence evs h) = (CtxDone \<in> set evs)"
proof -
  let ?hp = "fst (snd (CheckVoiceChannelsPresence pre h))"
  let ?ep = "snd (snd (CheckVoiceChannelsPresence pre h))"
  let ?B = "CheckVoiceChannelsPresence (pre @ [TickerC occ ks]) h"
  have dom: "dom (guildsPlayers ?hp) = dom (guildsPlayers h)"
    by (rule monitor_dom)
  have B: "?B = (False, fst (presenceTick occ ks ?hp), ?ep @ snd (presenceTick occ ks ?hp))"
    unfolding monitor_append [OF assms(1)] monitor_one_tick by simp
  have state: "fst (snd ?B) = fst (presenceTick occ ks ?hp)"
    and calls: "snd (snd ?B) = ?ep @ concat (map (tickCalls occ ?hp) ks)"
    unfolding B by (simp_all add: presenceTick_effects)
  have players: "guildsPlayers (fst (snd ?B)) g =
      (if soleOccupant occ g then map_option (\<lambda>p. snd (Stop p)) (guildsPlayers ?hp g)
       else guildsPlayers ?hp g)" for g
  proof (cases "g \<in> set ks")
    case True
    then show ?thesis
      unfolding state by (simp add: presenceTick_players [OF assms(2)])
  next
    case False
    with assms(3) dom have "guildsPlayers ?hp g = None" by auto
    then show ?thesis
      unfolding state by (simp add: presenceTick_players [OF assms(2)])
  qed
  have stops: "OnPlayer g CallStop \<in> set (concat (map (tickCalls occ ?hp) ks))
      \<longleftrightarrow> g \<in> dom (guildsPlayers h) \<and> soleOccupant occ g" for g
  proof -
    have "g \<in> dom (guildsPlayers h) \<longleftrightarrow> guildsPlayers ?hp g \<noteq> None"
      using dom by (auto simp: domIff)
    then show ?thesis
      using assms(3) by (auto simp: tickCalls_def split: if_splits option.splits)
  qed
  have pre_storage: "storage (fst (snd (CheckVoiceChannelsPresence evs' h'))) = storage h'"
    for evs' h'
  proof (induction evs' arbitrary: h')
    case Nil
    show ?case by simp
  next
    case (Cons ev evs')
    show ?case
    proof (cases ev)
      case (TickerC occ' ks')
      with Cons [of "fst (presenceTick occ' ks' h')"] show ?thesis
        by (simp add: case_prod_beta presenceTick_rest)
    next
      case CtxDone
      then show ?thesis by simp
    qed
  qed
  have later: "CheckVoiceChannelsPresence (pre @ TickerC occ ks # post) h =
      (fst (CheckVoiceChannelsPresence post (fst (snd ?B))),
       fst (snd (CheckVoiceChannelsPresence post (fst (snd ?B)))),
       snd (snd ?B) @ snd (snd (CheckVoiceChannelsPresence post (fst (snd ?B)))))"
  proof -
    have "CtxDone \<notin> set (pre @ [TickerC occ ks])"
      using assms(1) by simp
    from monitor_append [OF this, of post h] show ?thesis
      by simp
  qed
  have ended: "CheckVoiceChannelsPresence (pre @ CtxDone # post) h = (True, ?hp, ?ep)"
    unfolding monitor_append [OF assms(1)] by simp
  show ?thesis
    using players calls stops pre_storage [of "pre @ [TickerC occ ks]" h] dom later ended
      monitor_returns [of evs h]
    by (intro conjI allI) simp_all
qed

theorem presence_monitor_stops_alone_witness:
  "CheckVoiceChannelsPresence [TickerC exCrowd [''g''], TickerC exAlone [''g''], CtxDone,
       TickerC exAlone [''g'']] (exHandler exPlaying)
     = (True, exHandler exStopped,
        [OnPlayer ''g'' CallGetVoiceChannelInfo,
         OnPlayer ''g'' CallGetVoiceChannelInfo, OnPlayer ''g'' CallStop])
   \<and> guildsPlayers (fst (snd (CheckVoiceChannelsPresence [TickerC exCrowd [''g''],
         TickerC exAlone [''g'']] (exHandler exPlaying)))) ''g'' = Some exStopped
   \<and> \<not> fst (CheckVoiceChannelsPresence [TickerC exCrowd [''g''], TickerC exAlone [''g'']]
         (exHandler exPlaying))"
proof -
  let ?h = "exHandler exPlaying"
  let ?pre = "[TickerC exCrowd [''g'']]"
  have pre: "CtxDone \<notin> set ?pre"
    by simp
  have ks: "distinct [''g'']" "set [''g''] = dom (guildsPlayers ?h)"
    by (simp_all add: exHandler_def)
  have alone: "soleOccupant exAlone ''g''" and crowd: "\<not> soleOccupant exCrowd ''g''"
    by (simp_all add: soleOccupant_def exAlone_def exCrowd_def)
  have stopped: "snd (Stop exPlaying) = exStopped"
    by (simp add: Stop_def exPlaying_def exStopped_def NewGuildPlayer_def)
  have first: "CheckVoiceChannelsPresence ?pre ?h = (False, ?h, [OnPlayer ''g'' CallGetVoiceChannelInfo])"
    using crowd
    by (simp add: checkGuild_def exHandler_def exCrowd_def soleOccupant_def)
  note inst = presence_monitor_stops_alone [OF pre ks, of exAlone "[CtxDone, TickerC exAlone [''g'']]"
      "?pre @ [TickerC exAlone [''g'']]"]
  have players: "\<forall>g. guildsPlayers (fst (snd (CheckVoiceChannelsPresence
        (?pre @ [TickerC exAlone [''g'']]) ?h))) g =
      (if soleOccupant exAlone g
       then map_option (\<lambda>p. snd (Stop p)) (guildsPlayers (fst (snd (CheckVoiceChannelsPresence ?pre ?h))) g)
       else guildsPlayers (fst (snd (CheckVoiceChannelsPresence ?pre ?h))) g)"
    using inst by (rule conjunct1)
  then have player: "guildsPlayers (fst (snd (CheckVoiceChannelsPresence
        (?pre @ [TickerC exAlone [''g'']]) ?h))) ''g'' = Some exStopped"
    unfolding first using alone stopped by (simp add: exHandler_def)
  have waiting: "fst (CheckVoiceChannelsPresence (?pre @ [TickerC exAlone [''g'']]) ?h)
      = (CtxDone \<in> set (?pre @ [TickerC exAlone [''g'']]))"
    using inst by (elim conjE)
  have whole: "CheckVoiceChannelsPresence [TickerC exCrowd [''g''], TickerC exAlone [''g''], CtxDone,
       TickerC exAlone [''g'']] ?h
     = (True, exHandler exStopped,
        [OnPlayer ''g'' CallGetVoiceChannelInfo,
         OnPlayer ''g'' CallGetVoiceChannelInfo, OnPlayer ''g'' CallStop])"
    using stopped
    by (simp add: checkGuild_def exHandler_def exCrowd_def exAlone_def setPlayer_def case_prod_beta)
  from whole player waiting show ?thesis
    by simp
qed

section \<open>The cache stays within its capacity and evicts the least recently used\<close>

lemma oldest_least: "x \<in> set (e # xs) \<Longrightarrow> ceLastAccess (oldest e xs) \<le> ceLastAccess x"
proof (induction xs arbitrary: e x)
  case Nil
  then show ?case by simp
next
  case (Cons y ys)
  let ?e' = "if ceLastAccess y < ceLastAccess e then y else e"
  have le: "ceLastAccess (oldest ?e' ys) \<le> ceLastAccess z" if "z \<in> set (?e' # ys)" for z
    using that by (rule Cons.IH)
  have e': "ceLastAccess (oldest ?e' ys) \<le> ceLastAccess ?e'"
    by (rule le) simp
  from Cons.prems consider "x = e" | "x = y" | "x \<in> set ys" by auto
  then show ?case
  proof cases
    case 1
    with e' show ?thesis by (simp split: if_splits)
  next
    case 2
    with e' show ?thesis by (simp split: if_splits)
  next
    case 3
    with le [of x] show ?thesis by simp
  qed
qed

lemma evictOne_subset: "set (evictOne es) \<subseteq> set es"
  using set_remove1_subset by (fastforce simp: evictOne_def split: list.splits)

lemma evictOne_least:
  assumes "x \<in> set es" and "x \<notin> set (evictOne es)" and "y \<in> set es"
  shows "ceLastAccess x \<le> ceLastAccess y"
proof -
  from assms(1) obtain e rest where es: "es = e # rest" by (cases es) auto
  have "x = oldest e rest"
  proof (rule ccontr)
    assume "x \<noteq> oldest e rest"
    with assms(1) have "x \<in> set (remove1 (oldest e rest) es)" by simp
    with assms(2) show False by (simp add: evictOne_def es)
  qed
  with oldest_least [of y e rest] assms(3) show ?thesis
    by (simp add: es)
qed

lemma evictFor_subset: "set (evictFor need cap es) \<subseteq> set es"
proof (induction need cap es rule: evictFor.induct)
  case (1 need cap es)
  show ?case
  proof (cases "es \<noteq> [] \<and> cap < totalSize es + need")
    case True
    with "1.IH" have "set (evictFor need cap (evictOne es)) \<subseteq> set (evictOne es)" by simp
    with evictOne_subset [of es] True show ?thesis
      by (subst evictFor.simps) auto
  next
    case False
    then show ?thesis by (subst evictFor.simps) auto
  qed
qed

lemma evictFor_fits:
  "evictFor need cap es = [] \<or> totalSize (evictFor need cap es) + need \<le> cap"
proof (induction need cap es rule: evictFor.induct)
  case (1 need cap es)
  show ?case
  proof (cases "es \<noteq> [] \<and> cap < totalSize es + need")
    case True
    with "1.IH" show ?thesis by (subst (1 2) evictFor.simps) simp
  next
    case False
    then show ?thesis by (subst (1 2) evictFor.simps) auto
  qed
qed

lemma evictFor_unneeded: "totalSize es + need \<le> cap \<Longrightarrow> evictFor need cap es = es"
  by (subst evictFor.simps) simp

lemma evictFor_least:
  assumes "x \<in> set es" and "x \<notin> set (evictFor need cap es)" and "y \<in> set (evictFor need cap es)"
  shows "ceLastAccess x \<le> ceLastAccess y"
  using assms
proof (induction need cap es rule: evictFor.induct)
  case (1 need cap es)
  show ?case
  proof (cases "es \<noteq> [] \<and> cap < totalSize es + need")
    case False
    then have "evictFor need cap es = es" by (subst evictFor.simps) auto
    with "1.prems" show ?thesis by simp
  next
    case True
    then have unfold: "evictFor need cap es = evictFor need cap (evictOne es)"
      by (subst evictFor.simps) simp
    have y_es: "y \<in> set es"
      using "1.prems"(3) evictFor_subset [of need cap es] by auto
    show ?thesis
    proof (cases "x \<in> set (evictOne es)")
      case True
      with "1.IH" \<open>es \<noteq> [] \<and> cap < totalSize es + need\<close> "1.prems"(2,3) show ?thesis
        unfolding unfold by simp
    next
      case False
      with "1.prems"(1) y_es show ?thesis by (intro evictOne_least [of x es y])
    qed
  qed
qed

lemma cachePut_entries:
  "set (entries (cachePut k v sz c)) \<subseteq>
     insert \<lparr>ceKey = k, cePayload = v, ceSize = sz, ceLastAccess = clock c\<rparr>
       (set (evictFor sz (capacity c) (filter (\<lambda>e. ceKey e \<noteq> k) (entries c))))"
  "set (evictFor sz (capacity c) (filter (\<lambda>e. ceKey e \<noteq> k) (entries c)))
     \<subseteq> set (entries (cachePut k v sz c))"
  by (auto simp: cachePut_def Let_def)

lemma cachePut_within:
  "totalSize (entries (cachePut k v sz c)) \<le> capacity c"
  "capacity (cachePut k v sz c) = capacity c"
proof -
  let ?kept = "evictFor sz (capacity c) (filter (\<lambda>e. ceKey e \<noteq> k) (entries c))"
  show "totalSize (entries (cachePut k v sz c)) \<le> capacity c"
  proof (cases "totalSize ?kept + sz \<le> capacity c")
    case True
    then show ?thesis by (simp add: cachePut_def totalSize_def Let_def)
  next
    case False
    with evictFor_fits [of sz "capacity c" "filter (\<lambda>e. ceKey e \<noteq> k) (entries c)"]
    have "?kept = []" by auto
    then show ?thesis by (simp add: cachePut_def totalSize_def Let_def)
  qed
  show "capacity (cachePut k v sz c) = capacity c"
    by (simp add: cachePut_def Let_def)
qed

lemma cachePut_stored:
  assumes "sz \<le> capacity c"
  shows "k \<in> cacheKeys (cachePut k v sz c)"
proof -
  let ?kept = "evictFor sz (capacity c) (filter (\<lambda>e. ceKey e \<noteq> k) (entries c))"
  have "totalSize ?kept + sz \<le> capacity c"
    using evictFor_fits [of sz "capacity c" "filter (\<lambda>e. ceKey e \<noteq> k) (entries c)"] assms
    by (auto simp: totalSize_def)
  then show ?thesis
    by (simp add: cachePut_def cacheKeys_def Let_def)
qed

lemma touch_size:
  "ceSize \<circ> (\<lambda>x. if ceKey x = k then x\<lparr>ceLastAccess := t\<rparr> else x) = ceSize"
  by (rule ext) simp

lemma cacheGet_sizes:
  "totalSize (entries (snd (cacheGet k c))) = totalSize (entries c)"
  "capacity (snd (cacheGet k c)) = capacity c"
proof -
  show "totalSize (entries (snd (cacheGet k c))) = totalSize (entries c)"
    by (simp add: cacheGet_def totalSize_def touch_size split: option.splits)
  show "capacity (snd (cacheGet k c)) = capacity c"
    by (simp add: cacheGet_def split: option.splits)
qed

lemma runCache_within:
  assumes "totalSize (entries c) \<le> capacity c"
  shows "totalSize (entries (runCache ops c)) \<le> capacity c \<and> capacity (runCache ops c) = capacity c"
  using assms
proof (induction ops arbitrary: c)
  case Nil
  then show ?case by (simp add: runCache_def)
next
  case (Cons op ops)
  have run: "runCache (op # ops) c = runCache ops (cacheStep op c)"
    by (simp add: runCache_def)
  have step: "totalSize (entries (cacheStep op c)) \<le> capacity (cacheStep op c)
      \<and> capacity (cacheStep op c) = capacity c"
  proof (cases op)
    case (Probe k)
    with Cons.prems show ?thesis by (simp add: cacheGet_sizes)
  next
    case (Store k v sz)
    then show ?thesis by (simp add: cachePut_within)
  qed
  then show ?case
    unfolding run using Cons.IH [of "cacheStep op c"] by simp
qed

lemma cachePut_least:
  assumes "x \<in> set (entries c)" and "ceKey x \<noteq> k" and "x \<notin> set (entries (cachePut k v sz c))"
    and "y \<in> set (entries (cachePut k v sz c))" and "ceKey y \<noteq> k"
  shows "ceLastAccess x \<le> ceLastAccess y"
proof -
  let ?old = "filter (\<lambda>e. ceKey e \<noteq> k) (entries c)"
  let ?kept = "evictFor sz (capacity c) ?old"
  from assms(1,2) have "x \<in> set ?old" by simp
  moreover from assms(3) have "x \<notin> set ?kept"
    using cachePut_entries(2) [of sz c k v] by auto
  moreover from assms(4,5) have "y \<in> set ?kept"
    using cachePut_entries(1) [of k v sz c] by auto
  ultimately show ?thesis by (rule evictFor_least)
qed

lemma cachePut_unneeded:
  assumes "totalSize (filter (\<lambda>e. ceKey e \<noteq> k) (entries c)) + sz \<le> capacity c"
  shows "entries (cachePut k v sz c) =
    filter (\<lambda>e. ceKey e \<noteq> k) (entries c)
      @ [\<lparr>ceKey = k, cePayload = v, ceSize = sz, ceLastAccess = clock c\<rparr>]"
  using assms by (simp add: cachePut_def Let_def evictFor_unneeded)

lemma cacheStep_stamped:
  assumes "stamped c"
  shows "stamped (cacheStep op c)"
proof (cases op)
  case (Probe k)
  with assms show ?thesis
    by (auto simp: stamped_def cacheGet_def list_all_iff split: option.splits)
next
  case (Store k v sz)
  have "set (evictFor sz (capacity c) (filter (\<lambda>e. ceKey e \<noteq> k) (entries c))) \<subseteq> set (entries c)"
    using evictFor_subset [of sz "capacity c" "filter (\<lambda>e. ceKey e \<noteq> k) (entries c)"] by auto
  with assms Store show ?thesis
    by (auto simp: stamped_def cachePut_def Let_def list_all_iff less_Suc_eq)
qed

lemma runCache_stamped: "stamped c \<Longrightarrow> stamped (runCache ops c)"
proof (induction ops arbitrary: c)
  case Nil
  then show ?case by (simp add: runCache_def)
next
  case (Cons op ops)
  from Cons.IH [OF cacheStep_stamped [OF Cons.prems, of op]] show ?case
    by (simp add: runCache_def)
qed

lemma recent_survives:
  assumes "stamped c" and "a \<in> cacheKeys c" and "a \<noteq> k" and "b \<noteq> a" and "b \<noteq> k"
    and "b \<in> cacheKeys (cachePut k v sz (snd (cacheGet a c)))"
  shows "a \<in> cacheKeys (cachePut k v sz (snd (cacheGet a c)))"
proof -
  let ?c1 = "snd (cacheGet a c)"
  let ?touch = "\<lambda>x. if ceKey x = a then x\<lparr>ceLastAccess := clock c\<rparr> else x"
  from assms(2) obtain e0 where e0: "e0 \<in> set (entries c)" "ceKey e0 = a"
    by (auto simp: cacheKeys_def)
  then have "find (\<lambda>e. ceKey e = a) (entries c) \<noteq> None"
    by (auto simp: find_None_iff)
  then have c1: "entries ?c1 = map ?touch (entries c)"
    by (auto simp: cacheGet_def)
  define ea where "ea = e0\<lparr>ceLastAccess := clock c\<rparr>"
  have ea: "ea \<in> set (entries ?c1)" "ceKey ea = a" "ceLastAccess ea = clock c"
    using e0 unfolding c1 ea_def by (auto simp: image_iff intro!: bexI [of _ e0])
  from assms(6) obtain eb where eb: "eb \<in> set (entries (cachePut k v sz ?c1))" "ceKey eb = b"
    by (auto simp: cacheKeys_def)
  with assms(5) have "eb \<in> set (entries ?c1)"
    using evictFor_subset [of sz "capacity ?c1" "filter (\<lambda>e. ceKey e \<noteq> k) (entries ?c1)"]
      cachePut_entries(1) [of k v sz ?c1]
    by auto
  then obtain e1 where e1: "e1 \<in> set (entries c)" "eb = ?touch e1"
    unfolding c1 by auto
  with eb(2) assms(4) have "eb = e1" by (auto split: if_splits)
  with e1 assms(1) have old: "ceLastAccess eb < clock c"
    by (auto simp: stamped_def list_all_iff)
  have "ea \<in> set (entries (cachePut k v sz ?c1))"
  proof (rule ccontr)
    assume "ea \<notin> set (entries (cachePut k v sz ?c1))"
    with ea(1,2) assms(3) eb assms(5) have "ceLastAccess ea \<le> ceLastAccess eb"
      by (intro cachePut_least [of ea ?c1 k v sz eb]) simp_all
    with ea(3) old show False by simp
  qed
  with ea(2) show ?thesis
    by (auto simp: cacheKeys_def image_iff intro!: bexI [of _ ea])
qed

text \<open>
  C4. Whatever the sequence of probes and insertions on a new cache, the total size of the
  entries is within the configured capacity after every operation; so it is from any cache
  that is within its capacity. An insertion that fits evicts nothing, and one that would
  exceed the capacity first evicts least recently used entries: every entry that it
  evicts was last accessed no later than every entry that it keeps. An entry that can fit
  the cache at all is stored. So an entry that was accessed immediately before the sweep
  is still there whenever any other old entry is. (The stamps of the entries lie before
  the clock of the cache, and every operation keeps it so.)
\<close>

theorem cache_within_capacity_lru:
  "totalSize (entries (runCache ops (newCache cap))) \<le> cap
   \<and> (totalSize (entries c) \<le> capacity c \<longrightarrow> totalSize (entries (runCache ops c)) \<le> capacity c)
   \<and> (totalSize (filter (\<lambda>e. ceKey e \<noteq> k) (entries c)) + sz \<le> capacity c \<longrightarrow>
        entries (cachePut k v sz c) =
          filter (\<lambda>e. ceKey e \<noteq> k) (entries c)
            @ [\<lparr>ceKey = k, cePayload = v, ceSize = sz, ceLastAccess = clock c\<rparr>])
   \<and> (\<forall>x y. x \<in> set (entries c) \<and> ceKey x \<noteq> k \<and> x \<notin> set (entries (cachePut k v sz c))
          \<and> y \<in> set (entries (cachePut k v sz c)) \<and> ceKey y \<noteq> k \<longrightarrow>
          ceLastAccess x \<le> ceLastAccess y)
   \<and> (sz \<le> capacity c \<longrightarrow> k \<in> cacheKeys (cachePut k v sz c))
   \<and> (stamped c \<and> a \<in> cacheKeys c \<and> a \<noteq> k \<and> b \<noteq> a \<and> b \<noteq> k
        \<and> b \<in> cacheKeys (cachePut k v sz (snd (cacheGet a c))) \<longrightarrow>
        a \<in> cacheKeys (cachePut k v sz (snd (cacheGet a c))))
   \<and> (stamped c \<longrightarrow> stamped (runCache ops c))"
proof (intro conjI impI allI)
  have "totalSize (entries (newCache cap :: 'a Cache)) \<le> capacity (newCache cap :: 'a Cache)"
    by (simp add: newCache_def totalSize_def)
  from runCache_within [OF this, of ops]
  show "totalSize (entries (runCache ops (newCache cap))) \<le> cap"
    by (simp add: newCache_def)
next
  assume "totalSize (entries c) \<le> capacity c"
  then show "totalSize (entries (runCache ops c)) \<le> capacity c"
    using runCache_within [of c ops] by simp
next
  assume "totalSize (filter (\<lambda>e. ceKey e \<noteq> k) (entries c)) + sz \<le> capacity c"
  then show "entries (cachePut k v sz c) =
      filter (\<lambda>e. ceKey e \<noteq> k) (entries c)
        @ [\<lparr>ceKey = k, cePayload = v, ceSize = sz, ceLastAccess = clock c\<rparr>]"
    by (rule cachePut_unneeded)
next
  fix x y
  assume "x \<in> set (entries c) \<and> ceKey x \<noteq> k \<and> x \<notin> set (entries (cachePut k v sz c))
      \<and> y \<in> set (entries (cachePut k v sz c)) \<and> ceKey y \<noteq> k"
  then show "ceLastAccess x \<le> ceLastAccess y"
    using cachePut_least [of x c k v sz y] by simp
next
  assume "sz \<le> capacity c"
  then show "k \<in> cacheKeys (cachePut k v sz c)"
    by (rule cachePut_stored)
next
  assume "stamped c \<and> a \<in> cacheKeys c \<and> a \<noteq> k \<and> b \<noteq> a \<and> b \<noteq> k
      \<and> b \<in> cacheKeys (cachePut k v sz (snd (cacheGet a c)))"
  then show "a \<in> cacheKeys (cachePut k v sz (snd (cacheGet a c)))"
    using recent_survives [of c a k b v sz] by simp
next
  assume "stamped c"
  then show "stamped (runCache ops c)"
    by (rule runCache_stamped)
qed

theorem cache_within_capacity_lru_witness:
  "entries (runCache [Probe ''x'', Store ''z'' ''frames of z'' 3] exCache)
     = [exEntry ''x'' 3 3, exEntry ''w'' 3 2, exEntry ''z'' 3 4]
   \<and> totalSize (entries (runCache [Probe ''x'', Store ''z'' ''frames of z'' 3] exCache)) \<le> 10
   \<and> ''x'' \<in> cacheKeys (cachePut ''z'' ''frames of z'' 3 (snd (cacheGet ''x'' exCache)))
   \<and> ceLastAccess (exEntry ''y'' 3 1) \<le> ceLastAccess (exEntry ''w'' 3 2)
   \<and> entries (cachePut ''big'' ''frames of big'' 11 exCache) = []
   \<and> totalSize (entries (runCache [Store ''big'' ''frames of big'' 11] (newCache 10))) \<le> 10"
proof -
  let ?ops = "[Probe ''x'', Store ''z'' ''frames of z'' 3]"
  let ?c1 = "snd (cacheGet ''x'' exCache)"
  have c1: "?c1 = \<lparr>entries = [exEntry ''x'' 3 3, exEntry ''y'' 3 1, exEntry ''w'' 3 2],
      capacity = 10, clock = 4, hits = 1, misses = 0\<rparr>"
    by (simp add: cacheGet_def exCache_def exEntry_def)
  have put: "entries (cachePut ''z'' ''frames of z'' 3 ?c1)
      = [exEntry ''x'' 3 3, exEntry ''w'' 3 2, exEntry ''z'' 3 4]"
    unfolding c1 by code_simp
  have big: "entries (cachePut ''big'' ''frames of big'' 11 exCache) = []"
    by code_simp
  have run: "runCache ?ops exCache = cachePut ''z'' ''frames of z'' 3 ?c1"
    by (simp add: runCache_def)
  have within: "totalSize (entries exCache) \<le> capacity exCache"
    by (simp add: exCache_def totalSize_def exEntry_def)
  have recent: "stamped exCache \<and> ''x'' \<in> cacheKeys exCache \<and> ''x'' \<noteq> ''z'' \<and> ''w'' \<noteq> ''x''
      \<and> ''w'' \<noteq> ''z'' \<and> ''w'' \<in> cacheKeys (cachePut ''z'' ''frames of z'' 3 ?c1)"
    unfolding cacheKeys_def put by (simp add: stamped_def exCache_def exEntry_def cacheKeys_def)
  have order: "exEntry ''y'' 3 1 \<in> set (entries ?c1) \<and> ceKey (exEntry ''y'' 3 1) \<noteq> ''z''
      \<and> exEntry ''y'' 3 1 \<notin> set (entries (cachePut ''z'' ''frames of z'' 3 ?c1))
      \<and> exEntry ''w'' 3 2 \<in> set (entries (cachePut ''z'' ''frames of z'' 3 ?c1))
      \<and> ceKey (exEntry ''w'' 3 2) \<noteq> ''z''"
    unfolding put unfolding c1 by (simp add: exEntry_def)
  note inst = cache_within_capacity_lru [of ?ops 10 exCache "''z''" 3 "''frames of z''" "''x''" "''w''"]
  note inst1 = cache_within_capacity_lru [of "[]" 10 ?c1 "''z''" 3 "''frames of z''" "''x''" "''w''"]
  note inst2 = cache_within_capacity_lru
    [of "[Store ''big'' ''frames of big'' 11] :: string CacheOp list" 10 exCache "''z''" 3
      "''frames of z''" "''x''" "''w''"]
  have "totalSize (entries (runCache ?ops exCache)) \<le> capacity exCache"
    using inst [THEN conjunct2, THEN conjunct1] within by (rule mp)
  then have a: "totalSize (entries (runCache ?ops exCache)) \<le> 10"
    by (simp add: exCache_def)
  have b: "''x'' \<in> cacheKeys (cachePut ''z'' ''frames of z'' 3 ?c1)"
    using inst [THEN conjunct2, THEN conjunct2, THEN conjunct2, THEN conjunct2, THEN conjunct2,
        THEN conjunct1] recent
    by (rule mp)
  have c: "ceLastAccess (exEntry ''y'' 3 1) \<le> ceLastAccess (exEntry ''w'' 3 2)"
    using inst1 [THEN conjunct2, THEN conjunct2, THEN conjunct2, THEN conjunct1, rule_format,
        of "exEntry ''y'' 3 1" "exEntry ''w'' 3 2"] order by simp
  have d: "totalSize (entries (runCache [Store ''big'' ''frames of big'' 11] (newCache 10
      :: string Cache))) \<le> 10"
    using inst2 by (rule conjunct1)
  from a b c d put run big show ?thesis
    by simp
qed

end
